theory Spec2Isabelle
  imports Main "HOL-Library.AList"
begin

section \<open>JavaScript values used by the game engine\<close>

text \<open>
  The engine keys every table by a numeric user id. A JavaScript object with such keys is
  modelled as an association list read through \<open>map_of\<close> (the first binding of a key
  is its value), written with \<open>AList.update\<close> and enumerated in ascending key order, the
  order in which \<open>Object.keys\<close> and \<open>for (key in obj)\<close> visit integer keys.
\<close>

type_synonym 'v obj = "(nat \<times> 'v) list"

definition obj_get :: "'v obj \<Rightarrow> nat \<Rightarrow> 'v option" where
  "obj_get ob k = map_of ob k"

definition obj_set :: "nat \<Rightarrow> 'v \<Rightarrow> 'v obj \<Rightarrow> 'v obj" where
  "obj_set k v ob = AList.update k v ob"

definition obj_keys :: "'v obj \<Rightarrow> nat list" where
  "obj_keys ob = sort (remdups (map fst ob))"

text \<open>\<open>oUtil.forEach(obj, cb)\<close>: the callback runs once per own key, with the key and its value.\<close>

definition obj_forEach :: "'v obj \<Rightarrow> (nat \<Rightarrow> 'v \<Rightarrow> 's \<Rightarrow> 's) \<Rightarrow> 's \<Rightarrow> 's" where
  "obj_forEach ob cb s =
     fold (\<lambda>k acc. case obj_get ob k of Some v \<Rightarrow> cb k v acc | None \<Rightarrow> acc) (obj_keys ob) s"

text \<open>Reading an array element: past the end the result is \<open>undefined\<close> (here \<open>None\<close>).\<close>

definition arr_get :: "'a list \<Rightarrow> nat \<Rightarrow> 'a option" where
  "arr_get xs i = (if i < length xs then Some (xs ! i) else None)"

text \<open>
  \<open>Array.prototype.sort(cmp)\<close> as a stable insertion sort. The first argument says when
  the comparator's result is positive, that is, when its first argument goes after its
  second; a result of zero or \<open>NaN\<close> leaves two elements in their order.
\<close>

fun js_insert :: "('a \<Rightarrow> 'a \<Rightarrow> bool) \<Rightarrow> 'a \<Rightarrow> 'a list \<Rightarrow> 'a list" where
  "js_insert after x [] = [x]"
| "js_insert after x (y # ys) = (if after x y then y # js_insert after x ys else x # y # ys)"

definition js_sort :: "('a \<Rightarrow> 'a \<Rightarrow> bool) \<Rightarrow> 'a list \<Rightarrow> 'a list" where
  "js_sort after xs = foldr (js_insert after) xs []"

section \<open>Round: the countdown\<close>

text \<open>
  \<open>Round.prototype._countdown\<close> builds the milestone array \<open>[1, 2, 3]\<close>, pushes \<open>10\<close> when
  half the duration exceeds 15, and pushes the half. \<open>Math.floor(secs / 2)\<close> is \<open>secs div 2\<close>.
\<close>

definition countdown_milestones :: "int \<Rightarrow> int list" where
  "countdown_milestones secs =
     (let half = secs div 2;
          milestones = [1, 2, 3];
          milestones = (if half > 15 then milestones @ [10] else milestones)
      in milestones @ [half])"

text \<open>
  What a timer does when it fires: announce a milestone, or run the completion callback.
  A schedule is the list of timers in the order in which they are set, each with the delay
  in milliseconds handed to \<open>setTimeout\<close>, counted from the firing of the timer before it.
\<close>

datatype timer_action = Emit int | Complete

function emitMilestones :: "int \<Rightarrow> int list \<Rightarrow> (int \<times> timer_action) list" where
  "emitMilestones lst milestones =
     (if milestones = [] then [(lst * 1000, Complete)]
      else
        (let cur = last milestones;
             diff = lst - cur
         in (diff * 1000, Emit cur) # emitMilestones cur (butlast milestones)))"
  by pat_completeness auto
termination
  by (relation "measure (\<lambda>(lst, milestones). length milestones)") auto

definition countdown :: "int \<Rightarrow> (int \<times> timer_action) list" where
  "countdown secs = emitMilestones secs (countdown_milestones secs)"

text \<open>The milestones announced, in order, and the delays requested, in order.\<close>

definition announced :: "(int \<times> timer_action) list \<Rightarrow> int list" where
  "announced sched = concat (map (\<lambda>(d, a). case a of Emit n \<Rightarrow> [n] | Complete \<Rightarrow> []) sched)"

definition delays :: "(int \<times> timer_action) list \<Rightarrow> int list" where
  "delays sched = map fst sched"

definition strictly_decreasing :: "int list \<Rightarrow> bool" where
  "strictly_decreasing xs = sorted_wrt (\<lambda>a b. b < a) xs"

section \<open>Round: phases, submissions and votes\<close>

datatype phase = PHASE_STOPPED | PHASE_ACRO | PHASE_VOTE

text \<open>
  The fields of a \<open>Round\<close>. \<open>_opts\<close> is read only by \<open>_makeAcro\<close>, whose random result
  is the field \<open>acro\<close>. Keys of \<open>phrases\<close>, \<open>submitTimes\<close> and \<open>votes\<close> are user ids; the
  values of \<open>votes\<close> and the elements of \<open>userOrder\<close> are user ids too (in the source, the
  strings that \<open>Object.keys\<close> returns for them, which \<open>!=\<close> compares with a number
  numerically).
\<close>

record round =
  acro :: string
  phase :: phase
  phrases :: "string obj"
  submitTimes :: "int obj"
  userOrder :: "nat list"
  votes :: "nat obj"

datatype round_event =
    PhraseAccepted nat bool
  | PhraseRejected nat string
  | VoteAccepted nat bool
  | VoteRejected nat string

subsection \<open>Text of a submission\<close>

text \<open>Strings are ASCII: \<open>toUpperCase\<close> maps the letters a-z and leaves every other character.\<close>

definition toUpperChar :: "char \<Rightarrow> char" where
  "toUpperChar c =
     (case map_of (zip ''abcdefghijklmnopqrstuvwxyz'' ''ABCDEFGHIJKLMNOPQRSTUVWXYZ'') c of
        Some u \<Rightarrow> u
      | None \<Rightarrow> c)"

definition toUpperCase :: "string \<Rightarrow> string" where
  "toUpperCase s = map toUpperChar s"

text \<open>The character class \<open>[A-Z0-9'\-]\<close>.\<close>

definition acro_char :: "char \<Rightarrow> bool" where
  "acro_char c \<longleftrightarrow> c \<in> set ''ABCDEFGHIJKLMNOPQRSTUVWXYZ0123456789'' \<or> c = CHR 0x27 \<or> c = CHR ''-''"

text \<open>The class \<open>\s\<close> on ASCII: tab, line feed, vertical tab, form feed, carriage return, space.\<close>

definition is_space :: "char \<Rightarrow> bool" where
  "is_space c \<longleftrightarrow> c \<in> {CHR 0x09, CHR 0x0A, CHR 0x0B, CHR 0x0C, CHR 0x0D, CHR '' ''}"

text \<open>\<open>.replace(/[^A-Z0-9'\-]/g, ' ')\<close>\<close>

definition replace_non_acro :: "string \<Rightarrow> string" where
  "replace_non_acro s = map (\<lambda>c. if acro_char c then c else CHR '' '') s"

text \<open>\<open>.replace(/\s+/g, ' ')\<close>: every maximal run of white space becomes one space.\<close>

function collapse_spaces :: "string \<Rightarrow> string" where
  "collapse_spaces [] = []"
| "collapse_spaces (c # cs) =
     (if is_space c then CHR '' '' # collapse_spaces (dropWhile is_space cs)
      else c # collapse_spaces cs)"
  by pat_completeness auto
termination
  by (relation "measure length") (auto simp: le_imp_less_Suc length_dropWhile_le)

text \<open>
  \<open>.replace(/(?:^\s|\s$)/g, '')\<close>: one white-space character is removed at the start,
  and one at the end of what is left.
\<close>

definition strip_edges :: "string \<Rightarrow> string" where
  "strip_edges s =
     (let s1 = (case s of [] \<Rightarrow> [] | c # cs \<Rightarrow> if is_space c then cs else s)
      in if s1 \<noteq> [] \<and> is_space (last s1) then butlast s1 else s1)"

text \<open>\<open>.split(' ')\<close>: the pieces between single spaces; the empty string has one empty piece.\<close>

fun split_space :: "string \<Rightarrow> string list" where
  "split_space [] = [[]]"
| "split_space (c # cs) =
     (if c = CHR '' '' then [] # split_space cs
      else (case split_space cs of [] \<Rightarrow> [[c]] | w # ws \<Rightarrow> (c # w) # ws))"

definition phrase_words :: "string \<Rightarrow> string list" where
  "phrase_words phrase =
     split_space (strip_edges (collapse_spaces (replace_non_acro (toUpperCase phrase))))"

text \<open>
  \<open>acro += word[0]\<close>: the first character of the word is appended; for the empty word
  \<open>word[0]\<close> is \<open>undefined\<close>, and appending it to a string appends the text \<open>undefined\<close>.
\<close>

definition first_letter :: "string \<Rightarrow> string" where
  "first_letter word = (case word of [] \<Rightarrow> ''undefined'' | c # cs \<Rightarrow> [c])"

definition phrase_acro :: "string \<Rightarrow> string" where
  "phrase_acro phrase = fold (\<lambda>word acro. acro @ first_letter word) (phrase_words phrase) []"

text \<open>
  \<open>Round.prototype.submitPhrase\<close>. The time read from the clock is the argument \<open>now\<close>.
  The result is the round after the call and the event emitted, if any. A stored phrase
  is falsy when it is absent or the empty string.
\<close>

definition submitPhrase :: "round \<Rightarrow> nat \<Rightarrow> string \<Rightarrow> int \<Rightarrow> round \<times> round_event option" where
  "submitPhrase r userId phrase now =
     (if phase r = PHASE_ACRO then
        (let acro' = phrase_acro phrase in
         if acro' = acro r then
           (let first = (case obj_get (phrases r) userId of None \<Rightarrow> True | Some p \<Rightarrow> p = [])
            in (r\<lparr>phrases := obj_set userId (strip_edges phrase) (phrases r),
                   submitTimes := obj_set userId now (submitTimes r)\<rparr>,
                Some (PhraseAccepted userId first)))
         else (r, Some (PhraseRejected userId acro')))
      else (r, None))"

subsection \<open>Text of a vote\<close>

text \<open>
  \<open>parseInt(str)\<close>: leading white space is skipped, a sign is read, a \<open>0x\<close> prefix selects
  radix 16, and the longest run of digits is the value; with no digit the result is \<open>NaN\<close>
  (here \<open>None\<close>). What follows the digits is ignored.
\<close>

definition digit_of :: "char \<Rightarrow> nat option" where
  "digit_of c =
     map_of (zip ''0123456789abcdef'' [0 ..< 16] @ zip ''ABCDEF'' [10 ..< 16]) c"

definition radix_digit :: "nat \<Rightarrow> char \<Rightarrow> bool" where
  "radix_digit radix c = (case digit_of c of None \<Rightarrow> False | Some d \<Rightarrow> d < radix)"

definition digits_value :: "nat \<Rightarrow> string \<Rightarrow> nat" where
  "digits_value radix ds =
     foldl (\<lambda>acc c. acc * radix + (case digit_of c of None \<Rightarrow> 0 | Some d \<Rightarrow> d)) 0 ds"

definition parseInt :: "string \<Rightarrow> int option" where
  "parseInt str =
     (let s1 = dropWhile is_space str;
          negative = (take 1 s1 = ''-'');
          s2 = (if take 1 s1 = ''-'' \<or> take 1 s1 = ''+'' then drop 1 s1 else s1);
          hex = (take 2 s2 = ''0x'' \<or> take 2 s2 = ''0X'');
          radix = (if hex then 16 else 10);
          s3 = (if hex then drop 2 s2 else s2);
          ds = takeWhile (radix_digit radix) s3
      in if ds = [] then None
         else Some ((if negative then - 1 else 1) * int (digits_value radix ds)))"

text \<open>
  \<open>Round.prototype.submitVote\<close>. \<open>vote\<close> is \<open>parseInt(voteStr) - 1\<close>; when it is \<open>NaN\<close>
  both comparisons of the range test are false. A stored vote is a non-empty string, so
  \<open>!this._votes[userId]\<close> holds exactly when the voter has no entry.
\<close>

definition submitVote :: "round \<Rightarrow> nat \<Rightarrow> string \<Rightarrow> round \<times> round_event option" where
  "submitVote r userId voteStr =
     (if phase r = PHASE_VOTE then
        (case map_option (\<lambda>n. n - 1) (parseInt voteStr) of
           None \<Rightarrow> (r, Some (VoteRejected userId ''invalid''))
         | Some vote \<Rightarrow>
             if vote \<ge> 0 \<and> vote < int (length (userOrder r)) then
               (if userId \<noteq> userOrder r ! nat vote then
                  (let first = (obj_get (votes r) userId = None)
                   in (r\<lparr>votes := obj_set userId (userOrder r ! nat vote) (votes r)\<rparr>,
                       Some (VoteAccepted userId first)))
                else (r, Some (VoteRejected userId ''self'')))
             else (r, Some (VoteRejected userId ''invalid'')))
      else (r, None))"

section \<open>Round: the results of a vote\<close>

record results =
  winner :: "nat option"
  tie :: "nat list option"
  fastest :: "nat option"
  fastestWithVote :: "nat option"
  topVoters :: "nat list"
  nonVoters :: "nat list"
  acroVotes :: "nat obj"

text \<open>
  The body of the first loop of \<open>Round.prototype._getResults\<close>, run for every entry
  \<open>userId: votedFor\<close> of \<open>_votes\<close> on the pair \<open>(usersToVoteCount, usersToVoters)\<close>.
  The increment and the \<open>push\<close> find the entry that the statement before them has made
  sure of, so the \<open>None\<close> branches of their lookups are never taken.
\<close>

definition count_vote ::
  "nat \<Rightarrow> nat \<Rightarrow> nat obj \<times> nat list obj \<Rightarrow> nat obj \<times> nat list obj" where
  "count_vote userId votedFor s =
     (let (usersToVoteCount, usersToVoters) = s;
          (usersToVoteCount, usersToVoters) =
            (if obj_get usersToVoteCount votedFor = None
             then (obj_set votedFor 0 usersToVoteCount, obj_set votedFor [] usersToVoters)
             else (usersToVoteCount, usersToVoters));
          usersToVoteCount =
            obj_set votedFor
              (case obj_get usersToVoteCount votedFor of None \<Rightarrow> 0 | Some n \<Rightarrow> n + 1)
              usersToVoteCount;
          usersToVoters =
            (if obj_get usersToVoters votedFor = None then obj_set votedFor [] usersToVoters
             else usersToVoters);
          usersToVoters =
            obj_set votedFor
              (case obj_get usersToVoters votedFor of None \<Rightarrow> [userId] | Some vs \<Rightarrow> vs @ [userId])
              usersToVoters
      in (usersToVoteCount, usersToVoters))"

definition count_votes :: "nat obj \<Rightarrow> nat obj \<times> nat list obj" where
  "count_votes vs = obj_forEach vs count_vote ([], [])"

text \<open>
  \<open>a < b\<close> where \<open>a\<close> is a stored time or \<open>undefined\<close> and \<open>b\<close> is a time or \<open>Infinity\<close>
  (\<open>None\<close> on the right): \<open>undefined\<close> is below nothing.
\<close>

definition before :: "int option \<Rightarrow> int option \<Rightarrow> bool" where
  "before a b =
     (case a of None \<Rightarrow> False | Some x \<Rightarrow> (case b of None \<Rightarrow> True | Some y \<Rightarrow> x < y))"

text \<open>A count is truthy when it is present and not zero.\<close>

definition truthy_count :: "nat option \<Rightarrow> bool" where
  "truthy_count c = (case c of None \<Rightarrow> False | Some n \<Rightarrow> n \<noteq> 0)"

record scan =
  sc_nonVoters :: "nat list"
  sc_firstSubmitTime :: "int option"
  sc_fastest :: "nat option"
  sc_firstSubmitTimeWithVote :: "int option"
  sc_fastestWithVote :: "nat option"

text \<open>The body of the second loop, run for every key of \<open>_phrases\<close>.\<close>

definition scan_phrase :: "round \<Rightarrow> nat obj \<Rightarrow> nat \<Rightarrow> scan \<Rightarrow> scan" where
  "scan_phrase r usersToVoteCount userId sc =
     (let sc = (if obj_get (votes r) userId = None
                then sc\<lparr>sc_nonVoters := sc_nonVoters sc @ [userId]\<rparr> else sc);
          sc = (if before (obj_get (submitTimes r) userId) (sc_firstSubmitTime sc)
                then sc\<lparr>sc_firstSubmitTime := obj_get (submitTimes r) userId,
                        sc_fastest := Some userId\<rparr>
                else sc)
      in if before (obj_get (submitTimes r) userId) (sc_firstSubmitTimeWithVote sc)
            \<and> truthy_count (obj_get usersToVoteCount userId)
         then sc\<lparr>sc_firstSubmitTimeWithVote := obj_get (submitTimes r) userId,
                 sc_fastestWithVote := Some userId\<rparr>
         else sc)"

definition scan_phrases :: "round \<Rightarrow> nat obj \<Rightarrow> scan" where
  "scan_phrases r usersToVoteCount =
     fold (scan_phrase r usersToVoteCount) (obj_keys (phrases r))
       \<lparr>sc_nonVoters = [], sc_firstSubmitTime = None, sc_fastest = None,
        sc_firstSubmitTimeWithVote = None, sc_fastestWithVote = None\<rparr>"

text \<open>
  The comparator of \<open>voteOrder\<close>: \<open>None\<close> is \<open>NaN\<close>, the difference of two values one of
  which is \<open>undefined\<close>.
\<close>

definition vote_cmp :: "round \<Rightarrow> nat obj \<Rightarrow> nat \<Rightarrow> nat \<Rightarrow> int option" where
  "vote_cmp r usersToVoteCount a b =
     (if obj_get usersToVoteCount b = obj_get usersToVoteCount a then
        (case (obj_get (submitTimes r) a, obj_get (submitTimes r) b) of
           (Some ta, Some tb) \<Rightarrow> Some (ta - tb)
         | _ \<Rightarrow> None)
      else
        (case (obj_get usersToVoteCount b, obj_get usersToVoteCount a) of
           (Some cb, Some ca) \<Rightarrow> Some (int cb - int ca)
         | _ \<Rightarrow> None))"

definition positive :: "int option \<Rightarrow> bool" where
  "positive d = (case d of None \<Rightarrow> False | Some x \<Rightarrow> 0 < x)"

text \<open>
  The \<open>while\<close> loop that fills \<open>tie\<close>, started at the head of \<open>voteOrder\<close>. Past the end
  of the array \<open>voteOrder[i]\<close> is \<open>undefined\<close> and so is its count, which differs from
  \<open>curScore\<close>, the count of the first element: the loop stops there.
\<close>

fun tie_loop :: "nat obj \<Rightarrow> nat option \<Rightarrow> nat list \<Rightarrow> nat list" where
  "tie_loop usersToVoteCount curScore [] = []"
| "tie_loop usersToVoteCount curScore (u # us) =
     (if obj_get usersToVoteCount u = curScore then u # tie_loop usersToVoteCount curScore us
      else [])"

text \<open>
  \<open>Round.prototype._getResults\<close>. A key of \<open>usersToVoteCount\<close> is a non-empty string, so
  \<open>voteOrder[0] || null\<close> is \<open>null\<close> only for the empty array; \<open>usersToVoteCount[null]\<close> is
  \<open>undefined\<close>. The winner is a key of \<open>usersToVoteCount\<close> and so of \<open>usersToVoters\<close>: the
  lookup of its voters finds a list.
\<close>

definition getResults :: "round \<Rightarrow> results" where
  "getResults r =
     (let (usersToVoteCount, usersToVoters) = count_votes (votes r);
          sc = scan_phrases r usersToVoteCount;
          voteOrder = js_sort (\<lambda>a b. positive (vote_cmp r usersToVoteCount a b))
                        (obj_keys usersToVoteCount);
          winner = arr_get voteOrder 0;
          curScore = (case winner of None \<Rightarrow> None | Some w \<Rightarrow> obj_get usersToVoteCount w);
          tie = (if voteOrder \<noteq> [] then tie_loop usersToVoteCount curScore voteOrder else [])
      in \<lparr>winner = winner,
          tie = (if length tie > 1 then Some tie else None),
          fastest = sc_fastest sc,
          fastestWithVote = sc_fastestWithVote sc,
          topVoters = (case winner of None \<Rightarrow> []
                       | Some w \<Rightarrow> (case obj_get usersToVoters w of None \<Rightarrow> [] | Some vs \<Rightarrow> vs)),
          nonVoters = sc_nonVoters sc,
          acroVotes = usersToVoteCount\<rparr>)"

text \<open>The number of stored votes whose target is \<open>u\<close>.\<close>

definition votes_received :: "round \<Rightarrow> nat \<Rightarrow> nat" where
  "votes_received r u = length (filter (\<lambda>v. obj_get (votes r) v = Some u) (obj_keys (votes r)))"

section \<open>NormalRound: the points of a round\<close>

text \<open>
  A JavaScript number that may be \<open>NaN\<close>, the sum of \<open>undefined\<close> and a number. The keys
  of the points table are user ids and, for a \<open>null\<close> winner or fastest, the name \<open>null\<close>:
  the key \<open>Some u\<close> is the id \<open>u\<close>, the key \<open>None\<close> is \<open>null\<close>.
\<close>

datatype jsnum = Num int | NaN

type_synonym points = "nat option \<rightharpoonup> jsnum"

record opts =
  numLetters :: int
  pointsFastestWithVote :: int
  pointsVoteForWinner :: int

text \<open>\<open>x + n\<close> for a table entry \<open>x\<close>, which may be absent (\<open>undefined\<close>).\<close>

definition plus_entry :: "jsnum option \<Rightarrow> int \<Rightarrow> jsnum" where
  "plus_entry x n = (case x of Some (Num a) \<Rightarrow> Num (a + n) | _ \<Rightarrow> NaN)"

definition truthy_entry :: "jsnum option \<Rightarrow> bool" where
  "truthy_entry x = (case x of Some (Num a) \<Rightarrow> a \<noteq> 0 | _ \<Rightarrow> False)"

text \<open>\<open>x || 0\<close>\<close>

definition or_zero :: "jsnum option \<Rightarrow> jsnum" where
  "or_zero x = (case x of Some (Num a) \<Rightarrow> Num a | _ \<Rightarrow> Num 0)"

text \<open>The statements of \<open>NormalRound.prototype._getPoints\<close> before the loop over the non-voters.\<close>

definition points_before_forfeit :: "opts \<Rightarrow> results \<Rightarrow> points" where
  "points_before_forfeit os res =
     (let points = obj_forEach (acroVotes res)
                     (\<lambda>userId n pts. pts(Some userId \<mapsto> Num (int n))) Map.empty;
          points = points(fastestWithVote res \<mapsto>
                     plus_entry (points (fastestWithVote res)) (pointsFastestWithVote os));
          points = points(winner res \<mapsto> plus_entry (points (winner res)) (numLetters os))
      in fold (\<lambda>voter pts. pts(Some voter \<mapsto>
                 plus_entry (Some (or_zero (pts (Some voter)))) (pointsVoteForWinner os)))
           (topVoters res) points)"

text \<open>The loop over the non-voters: a truthy entry is set to zero.\<close>

definition forfeit :: "nat list \<Rightarrow> points \<Rightarrow> points" where
  "forfeit nvs points =
     fold (\<lambda>nonVoter pts. if truthy_entry (pts (Some nonVoter))
                           then pts(Some nonVoter \<mapsto> Num 0) else pts) nvs points"

definition getPoints :: "opts \<Rightarrow> results \<Rightarrow> points" where
  "getPoints os res = forfeit (nonVoters res) (points_before_forfeit os res)"

section \<open>FaceOffRound: the start of a vote\<close>

text \<open>
  The values handed to the callback of \<open>FaceOffRound.prototype.startVote\<close>, which its
  caller declares as \<open>function(err, points, fastest)\<close>. A parameter for which no argument
  is passed reads \<open>undefined\<close>.
\<close>

datatype jsval = Undefined | Null | Scores "int obj" | UserId nat

definition argument :: "jsval list \<Rightarrow> nat \<Rightarrow> jsval" where
  "argument args i = (if i < length args then args ! i else Undefined)"

definition cb_err :: "jsval list \<Rightarrow> jsval" where
  "cb_err args = argument args 0"

definition cb_points :: "jsval list \<Rightarrow> jsval" where
  "cb_points args = argument args 1"

definition cb_fastest :: "jsval list \<Rightarrow> jsval" where
  "cb_fastest args = argument args 2"

record faceOffRound =
  fr_numLetters :: int
  fr_userOrder :: "nat list"

text \<open>
  What \<open>startVote\<close> does: it calls the callback with a list of arguments (after a pause),
  or it opens the vote with \<open>_runVote\<close>.
\<close>

datatype vote_start = Callback "jsval list" | RunVote

text \<open>\<open>FaceOffRound.prototype._showSingleResult\<close>: \<open>cb(null, scores, userId)\<close>.\<close>

definition showSingleResult :: "faceOffRound \<Rightarrow> nat \<Rightarrow> vote_start" where
  "showSingleResult fr userId =
     (let scores = obj_set userId (fr_numLetters fr) []
      in Callback [Null, Scores scores, UserId userId])"

text \<open>
  \<open>FaceOffRound.prototype.startVote\<close>. With no submission the callback is
  \<open>cb.bind(this, {}, null)\<close>: its arguments are the empty object and \<open>null\<close>.
\<close>

definition startVote :: "faceOffRound \<Rightarrow> vote_start" where
  "startVote fr =
     (if length (fr_userOrder fr) = 0 then Callback [Scores [], Null]
      else if length (fr_userOrder fr) = 1 then showSingleResult fr (fr_userOrder fr ! 0)
      else RunVote)"

section \<open>FaceOff: the winner of the face-off\<close>

record faceOff =
  fo_scores :: "int obj"
  fo_fastest :: "int obj"

text \<open>The comparator \<open>function(a, b) { return table[b] - table[a]; }\<close>.\<close>

definition desc_cmp :: "int obj \<Rightarrow> nat \<Rightarrow> nat \<Rightarrow> int option" where
  "desc_cmp table a b =
     (case (obj_get table b, obj_get table a) of
        (Some vb, Some va) \<Rightarrow> Some (vb - va)
      | _ \<Rightarrow> None)"

text \<open>\<open>table[k]\<close> where \<open>k\<close> is an array element that may be \<open>undefined\<close>.\<close>

definition obj_at :: "'v obj \<Rightarrow> nat option \<Rightarrow> 'v option" where
  "obj_at table k = (case k of None \<Rightarrow> None | Some i \<Rightarrow> obj_get table i)"

text \<open>\<open>FaceOff.prototype._getFastestPlayer\<close>\<close>

definition getFastestPlayer :: "faceOff \<Rightarrow> nat option" where
  "getFastestPlayer fo =
     (let fastOrder = js_sort (\<lambda>a b. positive (desc_cmp (fo_fastest fo) a b))
                        (obj_keys (fo_fastest fo))
      in if arr_get fastOrder 0 = arr_get fastOrder 1 then None
         else arr_get fastOrder 0)"

text \<open>
  \<open>FaceOff.prototype._announceWinner\<close>: the winner handed to the callback, \<open>None\<close> when
  the callback gets no winner. A winner found by the scores is reported at once;
  otherwise the steps \<open>showTie\<close>, \<open>showFastest\<close> and \<open>showWinner\<close> report what
  \<open>_getFastestPlayer\<close> returns.
\<close>

definition announceWinner :: "faceOff \<Rightarrow> nat option" where
  "announceWinner fo =
     (let players = js_sort (\<lambda>a b. positive (desc_cmp (fo_scores fo) a b))
                      (obj_keys (fo_scores fo));
          winner = (if obj_at (fo_scores fo) (arr_get players 0)
                       \<noteq> obj_at (fo_scores fo) (arr_get players 1)
                    then arr_get players 0 else None)
      in case winner of
           Some w \<Rightarrow> Some w
         | None \<Rightarrow> getFastestPlayer fo)"

section \<open>AcroGame: users, stopping and messages\<close>

datatype message = Public string | Private string string

datatype game_event = EvStart | EvEnd bool

text \<open>
  The fields of an \<open>AcroGame\<close> that its own methods read and write. \<open>userNames\<close> is an
  array that may have holes. \<open>delivered\<close> lists the calls of \<open>_rawSayPublic\<close> and
  \<open>_rawSayPrivate\<close>, \<open>emitted\<close> the events of the game, and \<open>handled\<close> the calls of
  \<open>_handleInput\<close>, the entry of the round that is being played. \<open>userIds\<close> is the table
  of the entries of \<open>_userIds\<close> for names that are stored and found as entries of their
  own. Two names are not: an id assigned to \<open>__proto__\<close> is not stored, and once the name
  \<open>hasOwnProperty\<close> has an entry the test \<open>this._userIds.hasOwnProperty(user)\<close> throws.
  The facts below that are stated for every name hold for these two as well; the facts
  about the entry of a name are stated at names other than these.
\<close>

record acroGame =
  running :: bool
  ended :: bool
  scores :: "int obj"
  userIds :: "string \<rightharpoonup> nat"
  userNames :: "string option list"
  handled :: "(nat \<times> string) list"
  delivered :: "message list"
  emitted :: "game_event list"

text \<open>\<open>array[i] = v\<close>: past the end the array grows, leaving holes.\<close>

definition arr_set :: "nat \<Rightarrow> 'a \<Rightarrow> 'a option list \<Rightarrow> 'a option list" where
  "arr_set i v xs =
     (if i < length xs then xs[i := Some v]
      else xs @ replicate (i - length xs) None @ [Some v])"

text \<open>
  \<open>AcroGame.prototype.changeUser\<close>. The last statement reads \<open>_userIds[newUser]\<close> again;
  when that is \<open>undefined\<close> the assignment sets the property \<open>undefined\<close> of the array and
  no element of it.
\<close>

definition changeUser :: "acroGame \<Rightarrow> string \<Rightarrow> string \<Rightarrow> acroGame" where
  "changeUser g oldUser newUser =
     (if userIds g oldUser \<noteq> None then
        (let g = g\<lparr>userIds := (userIds g)(newUser := userIds g oldUser)\<rparr>;
             g = g\<lparr>userIds := (userIds g)(oldUser := None)\<rparr>
         in case userIds g newUser of
              None \<Rightarrow> g
            | Some i \<Rightarrow> g\<lparr>userNames := arr_set i newUser (userNames g)\<rparr>)
      else g)"




text \<open>
  \<open>AcroGame.prototype.userInput\<close>: a name that is not known gets the next id, and
  \<open>_handleInput\<close> is called with the id of the name and the input.
\<close>

definition userInput :: "acroGame \<Rightarrow> string \<Rightarrow> string \<Rightarrow> acroGame" where
  "userInput g user input =
     (let g = (if userIds g user = None
               then g\<lparr>userIds := (userIds g)(user \<mapsto> length (userNames g)),
                      userNames := userNames g @ [Some user]\<rparr>
               else g)
      in case userIds g user of
           None \<Rightarrow> g
         | Some i \<Rightarrow> g\<lparr>handled := handled g @ [(i, input)]\<rparr>)"






section \<open>Notions used to state the properties\<close>

text \<open>The values of an object, in the order of its keys.\<close>

definition obj_values :: "'v obj \<Rightarrow> 'v list" where
  "obj_values ob = List.map_filter (obj_get ob) (obj_keys ob)"

text \<open>
  The position in \<open>userOrder\<close> that a vote text selects: the text parsed as an integer,
  read as a 1-based index, when that index is inside the array.
\<close>

definition vote_index :: "round \<Rightarrow> string \<Rightarrow> nat option" where
  "vote_index r voteStr =
     (case parseInt voteStr of
        None \<Rightarrow> None
      | Some n \<Rightarrow> if 1 \<le> n \<and> n \<le> int (length (userOrder r)) then Some (nat (n - 1)) else None)"

text \<open>A call of \<open>submitVote\<close> accepted the vote: it emitted \<open>voteAccepted\<close>.\<close>

definition vote_accepted :: "round \<times> round_event option \<Rightarrow> bool" where
  "vote_accepted res = (case snd res of Some (VoteAccepted u first) \<Rightarrow> True | _ \<Rightarrow> False)"

text \<open>Successive calls of \<open>submitVote\<close>, each with a voter and a text.\<close>

definition submitVotes :: "round \<Rightarrow> (nat \<times> string) list \<Rightarrow> round" where
  "submitVotes r inputs =
     fold (\<lambda>(userId, voteStr) r'. fst (submitVote r' userId voteStr)) inputs r"

text \<open>An identifier has the maximum number of received votes, and that number is not zero.\<close>

definition top_voted :: "round \<Rightarrow> nat \<Rightarrow> bool" where
  "top_voted r a \<longleftrightarrow> 0 < votes_received r a \<and> (\<forall>u. votes_received r u \<le> votes_received r a)"

text \<open>The sorted array \<open>voteOrder\<close> of \<open>_getResults\<close>.\<close>

definition vote_order :: "round \<Rightarrow> nat list" where
  "vote_order r =
     js_sort (\<lambda>a b. positive (vote_cmp r (fst (count_votes (votes r))) a b))
       (obj_keys (fst (count_votes (votes r))))"

definition count_of :: "nat obj \<Rightarrow> nat \<Rightarrow> nat" where
  "count_of cnt u = (case obj_get cnt u of None \<Rightarrow> 0 | Some n \<Rightarrow> n)"

text \<open>One step of \<open>oUtil.forEach\<close> over the votes, for the voter \<open>k\<close>.\<close>

definition count_step ::
  "(nat \<rightharpoonup> nat) \<Rightarrow> nat \<Rightarrow> nat obj \<times> nat list obj \<Rightarrow> nat obj \<times> nat list obj" where
  "count_step vs k acc = (case vs k of Some v \<Rightarrow> count_vote k v acc | None \<Rightarrow> acc)"

text \<open>Every entry of a user id in a points table is a number.\<close>

definition numeric :: "points \<Rightarrow> bool" where
  "numeric m \<longleftrightarrow> (\<forall>u x. m (Some u) = Some x \<longrightarrow> x \<noteq> NaN)"

text \<open>
  The round of the repository's test of \<open>_getResults\<close>: five phrases with their times and
  four votes.
\<close>

definition test_round :: round where
  "test_round =
     \<lparr>acro = '''', phase = PHASE_STOPPED,
      phrases = [(0, ''A phrase''), (1, ''B phrase''), (2, ''C phrase''), (3, ''D phrase''),
                 (4, ''E phrase'')],
      submitTimes = [(0, 2), (1, 1), (2, 3), (3, 4), (4, 5)],
      userOrder = [],
      votes = [(0, 3), (1, 3), (2, 4), (3, 4)]\<rparr>"

text \<open>The option values of \<open>DEFAULT_OPTS\<close>, with the shortest acronym of a normal round.\<close>

definition default_opts :: opts where
  "default_opts = \<lparr>numLetters = 3, pointsFastestWithVote = 2, pointsVoteForWinner = 1\<rparr>"

text \<open>The test's round with three votes, all for user 3, who does not vote.\<close>

definition forfeit_round :: round where
  "forfeit_round = test_round\<lparr>votes := [(0, 3), (1, 3), (2, 3)]\<rparr>"

text \<open>The test's round at the start of its vote, and a sequence of vote messages.\<close>

definition vote_round :: round where
  "vote_round = test_round\<lparr>phase := PHASE_VOTE, userOrder := [3, 1, 4, 0, 2], votes := []\<rparr>"

definition vote_inputs :: "(nat \<times> string) list" where
  "vote_inputs = [(0, ''1''), (1, ''1''), (3, ''1''), (2, ''7''), (4, ''no''), (0, '' 3rd'')]"

text \<open>
  The acronym of a phrase as the specification words it: the first character of each
  word of the normalized text, concatenated. A word with no character adds nothing.
\<close>

definition spec_acro :: "string \<Rightarrow> string" where
  "spec_acro phrase = concat (map (take 1) (phrase_words phrase))"

text \<open>
  Two shapes of a text: no two spaces in a row; and not empty, with no space at either
  end and no two spaces in a row.
\<close>

fun spaced_once :: "string \<Rightarrow> bool" where
  "spaced_once (a # b # cs) = (\<not> (a = CHR '' '' \<and> b = CHR '' '') \<and> spaced_once (b # cs))"
| "spaced_once cs = True"

fun tidy :: "string \<Rightarrow> bool" where
  "tidy [] = False"
| "tidy [c] = (c \<noteq> CHR '' '')"
| "tidy (c # d # cs) = (c \<noteq> CHR '' '' \<and> (if d = CHR '' '' then tidy cs else tidy (d # cs)))"

text \<open>The game that the constructor \<open>AcroGame\<close> makes.\<close>

definition new_game :: acroGame where
  "new_game = \<lparr>running = False, ended = False, scores = [], userIds = Map.empty,
                userNames = [], handled = [], delivered = [], emitted = []\<rparr>"

section \<open>Facts about the countdown\<close>

lemma emitMilestones_snoc:
  "emitMilestones lst (ms @ [m]) = ((lst - m) * 1000, Emit m) # emitMilestones m ms"
  by (subst emitMilestones.simps) simp

lemma emitMilestones_Nil: "emitMilestones lst [] = [(lst * 1000, Complete)]"
  by (subst emitMilestones.simps) simp

text \<open>
  The delays requested add up to the duration, whatever the milestones are; a delay is
  negative where a milestone is above the one announced before it.
\<close>

lemma sum_delays_emitMilestones: "sum_list (delays (emitMilestones lst ms)) = lst * 1000"
proof (induction ms arbitrary: lst rule: rev_induct)
  case Nil
  then show ?case by (simp add: emitMilestones_Nil delays_def)
next
  case (snoc m ms)
  have "sum_list (delays (emitMilestones m ms)) = m * 1000"
    by (rule snoc.IH)
  then show ?case
    by (simp add: emitMilestones_snoc delays_def algebra_simps)
qed

lemma sum_delays_countdown: "sum_list (delays (countdown secs)) = secs * 1000"
  by (simp only: countdown_def sum_delays_emitMilestones)

text \<open>The announcements are strictly decreasing exactly from eight seconds on.\<close>

lemma countdown_strict_iff:
  "strictly_decreasing (announced (countdown secs)) \<longleftrightarrow> 8 \<le> secs"
proof (cases "secs div 2 > 15")
  case True
  then show ?thesis
    by (simp add: countdown_def countdown_milestones_def Let_def announced_def
        strictly_decreasing_def emitMilestones.simps)
next
  case False
  then show ?thesis
    by (simp add: countdown_def countdown_milestones_def Let_def announced_def
        strictly_decreasing_def emitMilestones.simps) arith
qed

text \<open>
  From eight seconds on the half is above 3: the milestones are ascending, they are
  announced in strictly decreasing order, no delay is negative and the delays add up to
  the duration.
\<close>

lemma countdown_from_eight_seconds:
  assumes "8 \<le> secs"
  shows "strictly_decreasing (announced (countdown secs))
    \<and> sum_list (delays (countdown secs)) = secs * 1000
    \<and> (\<forall>d \<in> set (delays (countdown secs)). 0 \<le> d)"
proof (cases "secs div 2 > 15")
  case True
  then show ?thesis
    using assms
    by (simp add: countdown_def countdown_milestones_def Let_def announced_def delays_def
        strictly_decreasing_def emitMilestones.simps)
next
  case False
  then show ?thesis
    using assms
    by (simp add: countdown_def countdown_milestones_def Let_def announced_def delays_def
        strictly_decreasing_def emitMilestones.simps) arith
qed

text \<open>
  C4. The claim: for every duration of at least one second the milestones are announced
  in strictly decreasing order, and the countdown completes at exactly the duration. For
  a duration of four seconds \<open>_countdown\<close> passes the milestones \<open>[1, 2, 3, 2]\<close>, which
  are not ascending as \<open>_emitMilestones\<close> requires: the announcements are 2, 3, 2, 1,
  and the second timer is set with a delay of minus one second, which no timer waits.
\<close>

theorem countdown_four_seconds:
  "countdown_milestones 4 = [1, 2, 3, 2]
   \<and> announced (countdown 4) = [2, 3, 2, 1]
   \<and> delays (countdown 4) = [2000, - 1000, 1000, 1000, 1000]
   \<and> \<not> strictly_decreasing (announced (countdown 4))"
  by (simp add: countdown_def countdown_milestones_def Let_def announced_def delays_def
      strictly_decreasing_def emitMilestones.simps)

section \<open>Facts about objects and sorting\<close>

lemma obj_get_set: "obj_get (obj_set k v ob) = (obj_get ob)(k \<mapsto> v)"
  by (rule ext) (simp add: obj_get_def obj_set_def update_conv')

lemma obj_get_map_of: "obj_get ob = map_of ob"
  by (rule ext) (simp add: obj_get_def)

lemma set_obj_keys: "set (obj_keys ob) = dom (obj_get ob)"
  by (simp add: obj_keys_def obj_get_map_of dom_map_of_conv_image_fst)

lemma distinct_obj_keys: "distinct (obj_keys ob)"
  by (simp add: obj_keys_def)

lemma sorted_obj_keys: "sorted (obj_keys ob)"
  by (simp add: obj_keys_def)

lemma set_js_insert: "set (js_insert after x xs) = insert x (set xs)"
  by (induction xs) auto

lemma length_js_insert: "length (js_insert after x xs) = Suc (length xs)"
  by (induction xs) auto

lemma distinct_js_insert: "distinct (js_insert after x xs) \<longleftrightarrow> x \<notin> set xs \<and> distinct xs"
  by (induction xs) (auto simp: set_js_insert)

lemma set_js_sort: "set (js_sort after xs) = set xs"
  by (induction xs) (auto simp: js_sort_def set_js_insert)

lemma length_js_sort: "length (js_sort after xs) = length xs"
  by (induction xs) (auto simp: js_sort_def length_js_insert)

lemma distinct_js_sort: "distinct (js_sort after xs) \<longleftrightarrow> distinct xs"
  by (induction xs) (auto simp: js_sort_def distinct_js_insert set_js_insert set_js_sort[unfolded js_sort_def])

text \<open>An ordering by a key \<open>c\<close>, highest first, when the comparator agrees with the key.\<close>

lemma descending_js_insert:
  assumes "sorted_wrt (\<lambda>a b. c b \<le> (c a :: nat)) xs"
    and "\<And>y. y \<in> set xs \<Longrightarrow> (after x y \<longrightarrow> c x \<le> c y) \<and> (\<not> after x y \<longrightarrow> c y \<le> c x)"
  shows "sorted_wrt (\<lambda>a b. c b \<le> c a) (js_insert after x xs)"
  using assms
proof (induction xs)
  case Nil
  then show ?case by simp
next
  case (Cons y ys)
  show ?case
  proof (cases "after x y")
    case True
    then have "c x \<le> c y" using Cons.prems(2) by simp
    moreover have "sorted_wrt (\<lambda>a b. c b \<le> c a) (js_insert after x ys)"
      using Cons by simp
    ultimately show ?thesis
      using True Cons.prems(1) by (auto simp: set_js_insert)
  next
    case False
    then have "c y \<le> c x" using Cons.prems(2) by simp
    then show ?thesis
      using False Cons.prems(1) by (auto intro: order_trans)
  qed
qed

lemma descending_js_sort:
  assumes "\<And>x y. x \<in> set xs \<Longrightarrow> y \<in> set xs \<Longrightarrow>
             (after x y \<longrightarrow> c x \<le> c y) \<and> (\<not> after x y \<longrightarrow> c y \<le> (c x :: nat))"
  shows "sorted_wrt (\<lambda>a b. c b \<le> c a) (js_sort after xs)"
  using assms
proof (induction xs)
  case Nil
  then show ?case by (simp add: js_sort_def)
next
  case (Cons x xs)
  have "sorted_wrt (\<lambda>a b. c b \<le> c a) (js_sort after xs)"
    using Cons by simp
  moreover have "\<And>y. y \<in> set (js_sort after xs) \<Longrightarrow>
      (after x y \<longrightarrow> c x \<le> c y) \<and> (\<not> after x y \<longrightarrow> c y \<le> c x)"
    using Cons.prems by (simp add: set_js_sort)
  ultimately have "sorted_wrt (\<lambda>a b. c b \<le> c a) (js_insert after x (js_sort after xs))"
    by (rule descending_js_insert)
  then show ?case by (simp add: js_sort_def)
qed

lemma tie_loop_takeWhile:
  "tie_loop cnt cur xs = takeWhile (\<lambda>u. obj_get cnt u = cur) xs"
  by (induction xs) auto

lemma takeWhile_descending:
  assumes "sorted_wrt (\<lambda>a b. c b \<le> (c a :: nat)) xs" and "\<And>x. x \<in> set xs \<Longrightarrow> c x \<le> m"
  shows "takeWhile (\<lambda>u. c u = m) xs = filter (\<lambda>u. c u = m) xs"
  using assms
proof (induction xs)
  case Nil
  then show ?case by simp
next
  case (Cons x xs)
  show ?case
  proof (cases "c x = m")
    case True
    then show ?thesis using Cons by simp
  next
    case False
    then have "c x < m" using Cons.prems(2)[of x] by simp
    then have "\<And>y. y \<in> set xs \<Longrightarrow> c y \<noteq> m"
      using Cons.prems(1) by auto
    then have "filter (\<lambda>u. c u = m) xs = []"
      by (simp add: filter_empty_conv)
    then show ?thesis using False by simp
  qed
qed

section \<open>Facts about the results of a vote\<close>

lemma fst_count_vote:
  "obj_get (fst (count_vote k t (cnt, vtrs))) = (obj_get cnt)(t \<mapsto> count_of cnt t + 1)"
  by (auto simp: count_vote_def count_of_def obj_get_set Let_def split: option.splits)

lemma snd_count_vote:
  assumes "dom (obj_get vtrs) = dom (obj_get cnt)"
  shows "obj_get (snd (count_vote k t (cnt, vtrs)))
     = (obj_get vtrs)(t \<mapsto> (case obj_get vtrs t of None \<Rightarrow> [] | Some vs \<Rightarrow> vs) @ [k])"
  using assms
  by (auto simp: count_vote_def obj_get_set Let_def split: option.splits)

lemma count_votes_fold: "count_votes vs = fold (count_step (obj_get vs)) (obj_keys vs) ([], [])"
  by (simp add: count_votes_def obj_forEach_def count_step_def[abs_def])

lemma fold_count_step:
  "obj_get (fst (fold (count_step vs) ks (cnt, vtrs))) u
     = (if filter (\<lambda>k. vs k = Some u) ks = [] then obj_get cnt u
        else Some (count_of cnt u + length (filter (\<lambda>k. vs k = Some u) ks)))"
proof (induction ks arbitrary: cnt vtrs)
  case Nil
  then show ?case by simp
next
  case (Cons k ks)
  show ?case
  proof (cases "vs k")
    case None
    then show ?thesis using Cons.IH[of cnt vtrs] by (simp add: count_step_def)
  next
    case (Some t)
    obtain cnt' vtrs' where s': "count_vote k t (cnt, vtrs) = (cnt', vtrs')"
      by (cases "count_vote k t (cnt, vtrs)")
    have g: "obj_get cnt' = (obj_get cnt)(t \<mapsto> count_of cnt t + 1)"
      using fst_count_vote[of k t cnt vtrs] s' by simp
    have c: "count_of cnt' u = (if t = u then count_of cnt u + 1 else count_of cnt u)"
      by (simp add: count_of_def g)
    show ?thesis
      using Cons.IH[of cnt' vtrs'] Some s' c g
      by (auto simp: count_step_def)
  qed
qed

lemma fold_count_step_voters:
  assumes "dom (obj_get vtrs) = dom (obj_get cnt)"
  shows "obj_get (snd (fold (count_step vs) ks (cnt, vtrs))) u
     = (if filter (\<lambda>k. vs k = Some u) ks = [] then obj_get vtrs u
        else Some ((case obj_get vtrs u of None \<Rightarrow> [] | Some l \<Rightarrow> l) @ filter (\<lambda>k. vs k = Some u) ks))"
  using assms
proof (induction ks arbitrary: cnt vtrs)
  case Nil
  then show ?case by simp
next
  case (Cons k ks)
  show ?case
  proof (cases "vs k")
    case None
    then show ?thesis using Cons.IH[of vtrs cnt] Cons.prems by (simp add: count_step_def)
  next
    case (Some t)
    obtain cnt' vtrs' where s': "count_vote k t (cnt, vtrs) = (cnt', vtrs')"
      by (cases "count_vote k t (cnt, vtrs)")
    have g: "obj_get vtrs' = (obj_get vtrs)(t \<mapsto> (case obj_get vtrs t of None \<Rightarrow> [] | Some vs \<Rightarrow> vs) @ [k])"
      using snd_count_vote[OF Cons.prems, of k t] s' by simp
    have "obj_get cnt' = (obj_get cnt)(t \<mapsto> count_of cnt t + 1)"
      using fst_count_vote[of k t cnt vtrs] s' by simp
    then have d: "dom (obj_get vtrs') = dom (obj_get cnt')"
      using g Cons.prems by simp
    show ?thesis
      using Cons.IH[OF d] Some s' g
      by (auto simp: count_step_def)
  qed
qed

lemma obj_get_Nil: "obj_get [] k = None"
  by (simp add: obj_get_def)

lemma count_votes_get:
  "obj_get (fst (count_votes (votes r))) u
     = (if votes_received r u = 0 then None else Some (votes_received r u))"
  by (simp add: count_votes_fold fold_count_step votes_received_def obj_get_Nil count_of_def)

lemma count_votes_voters:
  "obj_get (snd (count_votes (votes r))) u
     = (if votes_received r u = 0 then None
        else Some (filter (\<lambda>v. obj_get (votes r) v = Some u) (obj_keys (votes r))))"
proof -
  have "dom (obj_get ([] :: nat list obj)) = dom (obj_get ([] :: nat obj))"
    by (simp add: obj_get_map_of)
  from fold_count_step_voters[OF this] show ?thesis
    by (simp add: count_votes_fold votes_received_def obj_get_Nil)
qed

lemma set_counted: "set (obj_keys (fst (count_votes (votes r)))) = {u. 0 < votes_received r u}"
  by (auto simp: set_obj_keys dom_def count_votes_get)

lemma set_vote_order: "set (vote_order r) = {u. 0 < votes_received r u}"
  by (simp add: vote_order_def set_js_sort set_counted)

lemma distinct_vote_order: "distinct (vote_order r)"
  by (simp add: vote_order_def distinct_js_sort distinct_obj_keys)

lemma vote_cmp_agrees:
  assumes "0 < votes_received r a" "0 < votes_received r b"
  shows "(positive (vote_cmp r (fst (count_votes (votes r))) a b)
            \<longrightarrow> votes_received r a \<le> votes_received r b)
       \<and> (\<not> positive (vote_cmp r (fst (count_votes (votes r))) a b)
            \<longrightarrow> votes_received r b \<le> votes_received r a)"
  using assms
  by (auto simp: vote_cmp_def positive_def count_votes_get split: option.splits)

lemma descending_vote_order:
  "sorted_wrt (\<lambda>a b. votes_received r b \<le> votes_received r a) (vote_order r)"
  unfolding vote_order_def
  by (rule descending_js_sort) (simp add: set_counted vote_cmp_agrees)

lemma no_votes_received: "(\<forall>u. votes_received r u = 0) \<longleftrightarrow> obj_keys (votes r) = []"
proof
  assume a: "\<forall>u. votes_received r u = 0"
  show "obj_keys (votes r) = []"
  proof (rule ccontr)
    assume "obj_keys (votes r) \<noteq> []"
    then obtain k where k: "k \<in> set (obj_keys (votes r))"
      by (cases "obj_keys (votes r)") auto
    then obtain t where "obj_get (votes r) k = Some t"
      by (auto simp: set_obj_keys)
    with k have "filter (\<lambda>v. obj_get (votes r) v = Some t) (obj_keys (votes r)) \<noteq> []"
      by (auto simp: filter_empty_conv)
    then show False using a by (simp add: votes_received_def)
  qed
next
  assume "obj_keys (votes r) = []"
  then show "\<forall>u. votes_received r u = 0" by (simp add: votes_received_def)
qed

lemma vote_order_Nil: "vote_order r = [] \<longleftrightarrow> obj_keys (votes r) = []"
proof -
  have "vote_order r = [] \<longleftrightarrow> set (vote_order r) = {}" by simp
  also have "\<dots> \<longleftrightarrow> (\<forall>u. votes_received r u = 0)"
    by (auto simp: set_vote_order)
  finally show ?thesis by (simp add: no_votes_received)
qed

lemma winner_getResults: "winner (getResults r) = arr_get (vote_order r) 0"
  by (simp add: getResults_def vote_order_def Let_def case_prod_unfold)

lemma acroVotes_getResults: "acroVotes (getResults r) = fst (count_votes (votes r))"
  by (simp add: getResults_def Let_def case_prod_unfold)

lemma tie_getResults_unfold:
  "tie (getResults r) =
     (let cnt = fst (count_votes (votes r));
          t = (if vote_order r \<noteq> []
               then tie_loop cnt (obj_at cnt (arr_get (vote_order r) 0)) (vote_order r) else [])
      in if length t > 1 then Some t else None)"
  by (simp add: getResults_def vote_order_def Let_def case_prod_unfold obj_at_def)

lemma head_top_voted:
  assumes "vote_order r = h # rest"
  shows "set (filter (\<lambda>u. votes_received r u = votes_received r h) (vote_order r)) = {a. top_voted r a}"
    and "top_voted r h"
proof -
  have h0: "0 < votes_received r h"
    using set_vote_order[of r] assms by auto
  have le: "votes_received r u \<le> votes_received r h" for u
  proof (cases "u \<in> set (vote_order r)")
    case True
    then show ?thesis
      using descending_vote_order[of r] assms by auto
  next
    case False
    then show ?thesis by (simp add: set_vote_order)
  qed
  show "top_voted r h" using h0 le by (simp add: top_voted_def)
  show "set (filter (\<lambda>u. votes_received r u = votes_received r h) (vote_order r)) = {a. top_voted r a}"
  proof (rule set_eqI)
    fix a
    show "a \<in> set (filter (\<lambda>u. votes_received r u = votes_received r h) (vote_order r))
        \<longleftrightarrow> a \<in> {a. top_voted r a}"
      using h0 le le[of a] by (auto simp: set_vote_order top_voted_def intro: antisym)
  qed
qed

lemma tie_getResults:
  assumes "vote_order r = h # rest"
  shows "tie (getResults r) =
     (let t = filter (\<lambda>u. votes_received r u = votes_received r h) (vote_order r)
      in if length t > 1 then Some t else None)"
proof -
  let ?cnt = "fst (count_votes (votes r))"
  have h0: "0 < votes_received r h"
    using set_vote_order[of r] assms by auto
  have cur: "obj_get ?cnt h = Some (votes_received r h)"
    using h0 by (simp add: count_votes_get)
  have "tie_loop ?cnt (Some (votes_received r h)) (vote_order r)
      = takeWhile (\<lambda>u. obj_get ?cnt u = Some (votes_received r h)) (vote_order r)"
    by (rule tie_loop_takeWhile)
  also have "\<dots> = takeWhile (\<lambda>u. votes_received r u = votes_received r h) (vote_order r)"
    by (rule takeWhile_cong) (auto simp: set_vote_order count_votes_get)
  also have "\<dots> = filter (\<lambda>u. votes_received r u = votes_received r h) (vote_order r)"
  proof (rule takeWhile_descending[OF descending_vote_order])
    fix x assume "x \<in> set (vote_order r)"
    then show "votes_received r x \<le> votes_received r h"
      using descending_vote_order[of r] assms by auto
  qed
  finally have loop: "tie_loop ?cnt (Some (votes_received r h)) (vote_order r)
      = filter (\<lambda>u. votes_received r u = votes_received r h) (vote_order r)" .
  show ?thesis
    using assms cur loop
    by (simp add: tie_getResults_unfold Let_def arr_get_def obj_at_def)
qed

lemma two_elements:
  assumes "distinct t"
  shows "1 < length t \<longleftrightarrow> (\<exists>a b. a \<noteq> b \<and> a \<in> set t \<and> b \<in> set t)"
proof (cases t)
  case Nil
  then show ?thesis by simp
next
  case (Cons x xs)
  show ?thesis
  proof (cases xs)
    case Nil
    then show ?thesis using Cons by auto
  next
    case (Cons y ys)
    then have "x \<noteq> y" using assms \<open>t = x # xs\<close> by auto
    then show ?thesis using Cons \<open>t = x # xs\<close> by auto
  qed
qed

text \<open>
  C2. For every state of the phrases, the submission times and the votes of a round, the
  results that \<open>_getResults\<close> returns satisfy: \<open>winner\<close> is \<open>null\<close> exactly when there is
  no vote; \<open>tie\<close> is not \<open>null\<close> exactly when two different identifiers both have the
  maximum number of received votes; and when \<open>tie\<close> is not \<open>null\<close>, \<open>winner\<close> is one of
  its elements, which are the identifiers with the maximum number of received votes.
\<close>

theorem getResults_winner_and_tie:
  "(winner (getResults r) = None \<longleftrightarrow> obj_keys (votes r) = [])
   \<and> (tie (getResults r) \<noteq> None \<longleftrightarrow> (\<exists>a b. a \<noteq> b \<and> top_voted r a \<and> top_voted r b))
   \<and> (\<forall>t. tie (getResults r) = Some t \<longrightarrow>
         (\<exists>w. winner (getResults r) = Some w \<and> w \<in> set t) \<and> set t = {a. top_voted r a})"
proof (cases "vote_order r")
  case Nil
  then have "obj_keys (votes r) = []" by (simp add: vote_order_Nil[symmetric])
  then have "\<And>a. \<not> top_voted r a"
    using no_votes_received[of r] by (simp add: top_voted_def)
  then show ?thesis
    using Nil \<open>obj_keys (votes r) = []\<close>
    by (simp add: winner_getResults tie_getResults_unfold arr_get_def)
next
  case (Cons h rest)
  let ?t = "filter (\<lambda>u. votes_received r u = votes_received r h) (vote_order r)"
  have keys: "obj_keys (votes r) \<noteq> []"
    using Cons vote_order_Nil[of r] by simp
  have w: "winner (getResults r) = Some h"
    using Cons by (simp add: winner_getResults arr_get_def)
  have t: "tie (getResults r) = (if 1 < length ?t then Some ?t else None)"
    using tie_getResults[OF Cons] by (simp add: Let_def)
  have st: "set ?t = {a. top_voted r a}" and h: "top_voted r h"
    using head_top_voted[OF Cons] by auto
  have "distinct ?t" using distinct_vote_order[of r] by simp
  then have two: "1 < length ?t \<longleftrightarrow> (\<exists>a b. a \<noteq> b \<and> top_voted r a \<and> top_voted r b)"
    using two_elements[of ?t] st by auto
  have hin: "h \<in> set ?t" using st h by blast
  show ?thesis
  proof (intro conjI allI impI)
    show "winner (getResults r) = None \<longleftrightarrow> obj_keys (votes r) = []"
      using w keys by simp
    show "tie (getResults r) \<noteq> None \<longleftrightarrow> (\<exists>a b. a \<noteq> b \<and> top_voted r a \<and> top_voted r b)"
      using t two by simp
  next
    fix t' assume a: "tie (getResults r) = Some t'"
    then have "t' = ?t" using t by (simp split: if_splits)
    then show "\<exists>w. winner (getResults r) = Some w \<and> w \<in> set t'"
      using w hin by simp
    show "set t' = {a. top_voted r a}"
      using \<open>t' = ?t\<close> st by simp
  qed
qed

lemma test_round_results:
  "getResults test_round =
     \<lparr>winner = Some 3, tie = Some [3, 4], fastest = Some 1, fastestWithVote = Some 3,
      topVoters = [0, 1], nonVoters = [4], acroVotes = [(3, 2), (4, 2)]\<rparr>"
  by code_simp

theorem getResults_winner_and_tie_witness:
  "winner (getResults test_round) = Some 3
   \<and> tie (getResults test_round) = Some [3, 4]
   \<and> obj_keys (votes test_round) \<noteq> []
   \<and> (\<exists>a b. a \<noteq> b \<and> top_voted test_round a \<and> top_voted test_round b)
   \<and> {a. top_voted test_round a} = {3, 4}"
  using getResults_winner_and_tie[of test_round]
  by (simp add: test_round_results)

section \<open>Facts about votes\<close>

lemma submitVote_cases:
  assumes "phase r = PHASE_VOTE"
  shows "submitVote r userId voteStr =
     (case vote_index r voteStr of
        None \<Rightarrow> (r, Some (VoteRejected userId ''invalid''))
      | Some i \<Rightarrow>
          if userOrder r ! i = userId then (r, Some (VoteRejected userId ''self''))
          else (r\<lparr>votes := obj_set userId (userOrder r ! i) (votes r)\<rparr>,
                Some (VoteAccepted userId (obj_get (votes r) userId = None))))"
  using assms
  by (auto simp: submitVote_def vote_index_def Let_def split: option.splits)

lemma sum_received:
  assumes "finite T" and "\<And>v. v \<in> set V \<Longrightarrow> \<exists>t \<in> T. vs v = Some t"
  shows "(\<Sum>u \<in> T. length (filter (\<lambda>v. vs v = Some u) V)) = length V"
  using assms(2)
proof (induction V)
  case Nil
  then show ?case by simp
next
  case (Cons v V)
  obtain t where t: "t \<in> T" "vs v = Some t" using Cons.prems by auto
  have "(\<Sum>u \<in> T. length (filter (\<lambda>v. vs v = Some u) (v # V)))
      = (\<Sum>u \<in> T. (if t = u then 1 else 0) + length (filter (\<lambda>v. vs v = Some u) V))"
    using t by (intro sum.cong) auto
  also have "\<dots> = (\<Sum>u \<in> T. (if t = u then 1 else 0)) + (\<Sum>u \<in> T. length (filter (\<lambda>v. vs v = Some u) V))"
    by (simp add: sum.distrib)
  also have "\<dots> = 1 + length V"
    using Cons t assms(1) by simp
  finally show ?case by simp
qed

lemma values_counted:
  "obj_values (fst (count_votes (votes r)))
     = map (votes_received r) (obj_keys (fst (count_votes (votes r))))"
proof -
  have "\<And>u. u \<in> set (obj_keys (fst (count_votes (votes r)))) \<Longrightarrow>
          obj_get (fst (count_votes (votes r))) u = Some (votes_received r u)"
    by (simp add: set_counted count_votes_get)
  then show ?thesis
    unfolding obj_values_def List.map_filter_def
    by (auto simp: filter_id_conv)
qed

lemma sum_acroVotes:
  "sum_list (obj_values (acroVotes (getResults r))) = length (obj_keys (votes r))"
proof -
  let ?T = "{u. 0 < votes_received r u}"
  have fin: "finite ?T"
    using set_counted[of r, symmetric] by (metis List.finite_set)
  have tgt: "\<exists>t \<in> ?T. obj_get (votes r) v = Some t" if v: "v \<in> set (obj_keys (votes r))" for v
  proof -
    obtain t where t: "obj_get (votes r) v = Some t"
      using v by (auto simp: set_obj_keys dom_def)
    then have "filter (\<lambda>v. obj_get (votes r) v = Some t) (obj_keys (votes r)) \<noteq> []"
      using v by (auto simp: filter_empty_conv)
    then show ?thesis using t by (simp add: votes_received_def)
  qed
  have "sum_list (obj_values (acroVotes (getResults r)))
      = sum_list (map (votes_received r) (obj_keys (fst (count_votes (votes r)))))"
    by (simp add: acroVotes_getResults values_counted)
  also have "\<dots> = (\<Sum>u \<in> ?T. votes_received r u)"
    by (simp add: sum_list_distinct_conv_sum_set distinct_obj_keys set_counted)
  also have "\<dots> = length (obj_keys (votes r))"
    unfolding votes_received_def[abs_def]
    using sum_received[of ?T "obj_keys (votes r)" "obj_get (votes r)", OF fin tgt]
    by (simp add: votes_received_def)
  finally show ?thesis .
qed

lemma vote_accepted_iff:
  "vote_accepted (submitVote r u s)
     \<longleftrightarrow> phase r = PHASE_VOTE \<and> (\<exists>i. vote_index r s = Some i \<and> userOrder r ! i \<noteq> u)"
proof (cases "phase r = PHASE_VOTE")
  case True
  then show ?thesis
    by (auto simp: submitVote_cases vote_accepted_def split: option.splits)
next
  case False
  then show ?thesis by (simp add: submitVote_def vote_accepted_def)
qed

lemma phase_submitVote: "phase (fst (submitVote r u s)) = phase r"
  by (auto simp: submitVote_def Let_def split: option.splits)

lemma userOrder_submitVote: "userOrder (fst (submitVote r u s)) = userOrder r"
  by (auto simp: submitVote_def Let_def split: option.splits)

lemma vote_index_submitVote: "vote_index (fst (submitVote r u' s')) s = vote_index r s"
  unfolding vote_index_def userOrder_submitVote ..

lemma vote_accepted_later:
  "vote_accepted (submitVote (fst (submitVote r u' s')) u s) = vote_accepted (submitVote r u s)"
  by (simp add: vote_accepted_iff phase_submitVote userOrder_submitVote vote_index_submitVote)

lemma keys_submitVote:
  "set (obj_keys (votes (fst (submitVote r u s))))
     = (if vote_accepted (submitVote r u s) then insert u (set (obj_keys (votes r)))
        else set (obj_keys (votes r)))"
proof (cases "phase r = PHASE_VOTE")
  case True
  then show ?thesis
    by (auto simp: submitVote_cases vote_accepted_def set_obj_keys obj_get_set split: option.splits)
next
  case False
  then show ?thesis by (simp add: submitVote_def vote_accepted_def)
qed

lemma keys_submitVotes:
  "set (obj_keys (votes (submitVotes r inputs)))
     = set (obj_keys (votes r)) \<union> {u. \<exists>s. (u, s) \<in> set inputs \<and> vote_accepted (submitVote r u s)}"
proof (induction inputs arbitrary: r)
  case Nil
  then show ?case by (simp add: submitVotes_def)
next
  case (Cons p inputs)
  obtain u s where p: "p = (u, s)" by (cases p)
  have "submitVotes r (p # inputs) = submitVotes (fst (submitVote r u s)) inputs"
    by (simp add: submitVotes_def p)
  then show ?case
    using Cons.IH[of "fst (submitVote r u s)"]
    by (auto simp: p keys_submitVote vote_accepted_later)
qed

text \<open>
  C8. For every round reached from an empty vote table by calls of \<open>submitVote\<close>, the
  values of \<open>acroVotes\<close> in the results add up to the number of voters that hold a
  stored vote; these voters are the ones with an accepted call, so a rejected call (own
  phrase, or an index outside the list) adds nothing; and \<open>acroVotes\<close> has an entry
  exactly for the identifiers that received a vote, with the number of votes received.
\<close>

theorem acroVotes_of_submitted_votes:
  assumes "votes r0 = []" and "r = submitVotes r0 inputs"
  shows "sum_list (obj_values (acroVotes (getResults r))) = length (obj_keys (votes r))
    \<and> set (obj_keys (votes r))
        = {u. \<exists>s. (u, s) \<in> set inputs \<and> vote_accepted (submitVote r0 u s)}
    \<and> (\<forall>u. obj_get (acroVotes (getResults r)) u
             = (if votes_received r u = 0 then None else Some (votes_received r u)))"
proof -
  have "obj_keys (votes r0) = []" using assms(1) by (simp add: obj_keys_def)
  then have "set (obj_keys (votes r))
        = {u. \<exists>s. (u, s) \<in> set inputs \<and> vote_accepted (submitVote r0 u s)}"
    using assms(2) keys_submitVotes[of r0 inputs] by simp
  moreover have "\<forall>u. obj_get (acroVotes (getResults r)) u
             = (if votes_received r u = 0 then None else Some (votes_received r u))"
    by (simp add: acroVotes_getResults count_votes_get)
  ultimately show ?thesis
    using sum_acroVotes[of r] by simp
qed

theorem acroVotes_of_submitted_votes_witness:
  "votes vote_round = []
   \<and> votes (submitVotes vote_round vote_inputs) = [(0, 4), (1, 3)]
   \<and> obj_keys (acroVotes (getResults (submitVotes vote_round vote_inputs))) = [3, 4]
   \<and> sum_list (obj_values (acroVotes (getResults (submitVotes vote_round vote_inputs)))) = 2
   \<and> {u. \<exists>s. (u, s) \<in> set vote_inputs \<and> vote_accepted (submitVote vote_round u s)} = {0, 1}"
proof -
  have e: "votes vote_round = []"
    by (simp add: vote_round_def)
  have v: "votes (submitVotes vote_round vote_inputs) = [(0, 4), (1, 3)]"
    by code_simp
  have a: "obj_keys (acroVotes (getResults (submitVotes vote_round vote_inputs))) = [3, 4]"
    by code_simp
  have k: "obj_keys [(0, 4), (1, 3 :: nat)] = [0, 1]"
    by code_simp
  show ?thesis
    using acroVotes_of_submitted_votes[OF e refl, of vote_inputs] e v a k
    by simp
qed

text \<open>
  C5. In the voting phase, for every voter and every text: the vote is accepted exactly
  when the text, parsed as a 1-based index, selects a position of \<open>userOrder\<close> that does
  not hold the voter; with no such position the call changes nothing and emits
  \<open>voteRejected\<close> with reason \<open>invalid\<close>; when the position holds the voter it changes
  nothing and emits \<open>voteRejected\<close> with reason \<open>self\<close>; an accepted vote changes only
  the vote table, where it sets the voter's one entry to the identifier at the position,
  and \<open>voteAccepted\<close> carries \<open>true\<close> exactly when the voter had no entry, which in a
  round whose votes all came through \<open>submitVote\<close> means that no earlier vote of that
  voter was accepted.
\<close>

theorem submitVote_in_voting_phase:
  assumes "phase r = PHASE_VOTE"
  shows "(vote_accepted (submitVote r userId voteStr)
            \<longleftrightarrow> (\<exists>i. vote_index r voteStr = Some i \<and> userOrder r ! i \<noteq> userId))
    \<and> (vote_index r voteStr = None
          \<longrightarrow> submitVote r userId voteStr = (r, Some (VoteRejected userId ''invalid'')))
    \<and> (\<forall>i. vote_index r voteStr = Some i \<and> userOrder r ! i = userId
          \<longrightarrow> submitVote r userId voteStr = (r, Some (VoteRejected userId ''self'')))
    \<and> (\<forall>i. vote_index r voteStr = Some i \<and> userOrder r ! i \<noteq> userId
          \<longrightarrow> snd (submitVote r userId voteStr)
                = Some (VoteAccepted userId (userId \<notin> set (obj_keys (votes r))))
            \<and> obj_get (votes (fst (submitVote r userId voteStr)))
                = (obj_get (votes r))(userId \<mapsto> userOrder r ! i)
            \<and> set (obj_keys (votes (fst (submitVote r userId voteStr))))
                = insert userId (set (obj_keys (votes r)))
            \<and> fst (submitVote r userId voteStr)
                = r\<lparr>votes := votes (fst (submitVote r userId voteStr))\<rparr>)
    \<and> distinct (obj_keys (votes (fst (submitVote r userId voteStr))))
    \<and> (\<forall>r0 inputs. votes r0 = [] \<and> r = submitVotes r0 inputs
          \<longrightarrow> (userId \<notin> set (obj_keys (votes r))
                \<longleftrightarrow> \<not> (\<exists>s. (userId, s) \<in> set inputs \<and> vote_accepted (submitVote r0 userId s))))"
proof -
  have run: "userId \<notin> set (obj_keys (votes r))
                \<longleftrightarrow> \<not> (\<exists>s. (userId, s) \<in> set inputs \<and> vote_accepted (submitVote r0 userId s))"
    if "votes r0 = [] \<and> r = submitVotes r0 inputs" for r0 inputs
  proof -
    have "obj_keys (votes r0) = []" using that by (simp add: obj_keys_def)
    then show ?thesis using that keys_submitVotes[of r0 inputs] by auto
  qed
  have rest: "(vote_accepted (submitVote r userId voteStr)
            \<longleftrightarrow> (\<exists>i. vote_index r voteStr = Some i \<and> userOrder r ! i \<noteq> userId))
    \<and> (vote_index r voteStr = None
          \<longrightarrow> submitVote r userId voteStr = (r, Some (VoteRejected userId ''invalid'')))
    \<and> (\<forall>i. vote_index r voteStr = Some i \<and> userOrder r ! i = userId
          \<longrightarrow> submitVote r userId voteStr = (r, Some (VoteRejected userId ''self'')))
    \<and> (\<forall>i. vote_index r voteStr = Some i \<and> userOrder r ! i \<noteq> userId
          \<longrightarrow> snd (submitVote r userId voteStr)
                = Some (VoteAccepted userId (userId \<notin> set (obj_keys (votes r))))
            \<and> obj_get (votes (fst (submitVote r userId voteStr)))
                = (obj_get (votes r))(userId \<mapsto> userOrder r ! i)
            \<and> set (obj_keys (votes (fst (submitVote r userId voteStr))))
                = insert userId (set (obj_keys (votes r)))
            \<and> fst (submitVote r userId voteStr)
                = r\<lparr>votes := votes (fst (submitVote r userId voteStr))\<rparr>)
    \<and> distinct (obj_keys (votes (fst (submitVote r userId voteStr))))"
    unfolding submitVote_cases[OF assms]
    by (auto simp: vote_accepted_def obj_get_set set_obj_keys distinct_obj_keys split: option.splits)
  show ?thesis using rest run by blast
qed

theorem submitVote_in_voting_phase_witness:
  "phase (submitVotes vote_round vote_inputs) = PHASE_VOTE
   \<and> votes vote_round = []
   \<and> vote_index (submitVotes vote_round vote_inputs) '' 3rd'' = Some 2
   \<and> submitVote (submitVotes vote_round vote_inputs) 0 '' 3rd''
        = (submitVotes vote_round vote_inputs, Some (VoteAccepted 0 False))
   \<and> snd (submitVote (submitVotes vote_round vote_inputs) 2 ''2'') = Some (VoteAccepted 2 True)
   \<and> obj_get (votes (fst (submitVote (submitVotes vote_round vote_inputs) 2 ''2''))) 2 = Some 1
   \<and> submitVote (submitVotes vote_round vote_inputs) 4 ''3''
        = (submitVotes vote_round vote_inputs, Some (VoteRejected 4 ''self''))
   \<and> submitVote (submitVotes vote_round vote_inputs) 4 ''6''
        = (submitVotes vote_round vote_inputs, Some (VoteRejected 4 ''invalid''))
   \<and> (\<exists>s. (0, s) \<in> set vote_inputs \<and> vote_accepted (submitVote vote_round 0 s))"
proof -
  let ?r = "submitVotes vote_round vote_inputs"
  have ph: "phase ?r = PHASE_VOTE"
    by code_simp
  have e: "votes vote_round = []"
    by (simp add: vote_round_def)
  have i1: "vote_index ?r '' 3rd'' = Some 2" by code_simp
  have i2: "vote_index ?r ''2'' = Some 1" by code_simp
  have i3: "vote_index ?r ''3'' = Some 2" by code_simp
  have i4: "vote_index ?r ''6'' = None" by code_simp
  have o: "userOrder ?r = [3, 1, 4, 0, 2]" by code_simp
  have k: "obj_keys (votes ?r) = [0, 1]" by code_simp
  have s1: "submitVote ?r 0 '' 3rd'' = (?r, Some (VoteAccepted 0 False))" by code_simp
  have "votes vote_round = [] \<and> ?r = submitVotes vote_round vote_inputs
      \<longrightarrow> (0 \<notin> set (obj_keys (votes ?r))
            \<longleftrightarrow> \<not> (\<exists>s. (0, s) \<in> set vote_inputs \<and> vote_accepted (submitVote vote_round 0 s)))"
    using submitVote_in_voting_phase[OF ph, of 0 "'' 3rd''"] by blast
  then have ex: "\<exists>s. (0, s) \<in> set vote_inputs \<and> vote_accepted (submitVote vote_round 0 s)"
    using e k by simp
  show ?thesis
    using ex
      submitVote_in_voting_phase[OF ph, of 2 "''2''"]
      submitVote_in_voting_phase[OF ph, of 4 "''3''"]
      submitVote_in_voting_phase[OF ph, of 4 "''6''"]
      ph e i1 i2 i3 i4 o k s1
    by simp
qed

section \<open>Facts about the points\<close>

lemma fold_base_points:
  "fold (\<lambda>k acc. case obj_get cnt k of Some v \<Rightarrow> acc(Some k \<mapsto> Num (int v)) | None \<Rightarrow> acc) ks m key
     = (case key of
          None \<Rightarrow> m None
        | Some u \<Rightarrow> if u \<in> set ks \<and> obj_get cnt u \<noteq> None
                    then map_option (\<lambda>n. Num (int n)) (obj_get cnt u) else m (Some u))"
proof (induction ks arbitrary: m)
  case Nil
  then show ?case by (simp split: option.splits)
next
  case (Cons k ks)
  then show ?case by (auto split: option.splits)
qed

lemma base_points:
  "obj_forEach cnt (\<lambda>userId n pts. pts(Some userId \<mapsto> Num (int n))) Map.empty key
     = (case key of None \<Rightarrow> None | Some u \<Rightarrow> map_option (\<lambda>n. Num (int n)) (obj_get cnt u))"
  unfolding obj_forEach_def fold_base_points
  by (auto simp: set_obj_keys split: option.splits)

lemma numeric_voter_bonus:
  "numeric m \<Longrightarrow>
   numeric (fold (\<lambda>voter pts. pts(Some voter \<mapsto> plus_entry (Some (or_zero (pts (Some voter)))) c)) vs m)"
proof (induction vs arbitrary: m)
  case Nil
  then show ?case by simp
next
  case (Cons v vs)
  have "numeric (m(Some v \<mapsto> plus_entry (Some (or_zero (m (Some v)))) c))"
    using Cons.prems
    by (auto simp: numeric_def plus_entry_def or_zero_def split: option.splits jsnum.splits)
  from Cons.IH[OF this] show ?case by simp
qed

lemma dom_voter_bonus:
  "m k \<noteq> None \<Longrightarrow>
   fold (\<lambda>voter pts. pts(Some voter \<mapsto> plus_entry (Some (or_zero (pts (Some voter)))) c)) vs m k \<noteq> None"
  by (induction vs arbitrary: m) auto

lemma fastestWithVote_counted:
  assumes "sc_fastestWithVote (fold (scan_phrase r cnt) ks sc) = Some f"
    and "\<And>g. sc_fastestWithVote sc = Some g \<Longrightarrow> truthy_count (obj_get cnt g)"
  shows "truthy_count (obj_get cnt f)"
  using assms
proof (induction ks arbitrary: sc)
  case Nil
  then show ?case by simp
next
  case (Cons k ks)
  have "\<And>g. sc_fastestWithVote (scan_phrase r cnt k sc) = Some g \<Longrightarrow> truthy_count (obj_get cnt g)"
    using Cons.prems(2) by (auto simp: scan_phrase_def Let_def split: if_splits)
  then show ?case using Cons.IH[of "scan_phrase r cnt k sc"] Cons.prems(1) by simp
qed

lemma fastestWithVote_getResults:
  assumes "fastestWithVote (getResults r) = Some f"
  shows "0 < votes_received r f"
proof -
  have "sc_fastestWithVote (scan_phrases r (fst (count_votes (votes r)))) = Some f"
    using assms by (simp add: getResults_def Let_def case_prod_unfold)
  then have "truthy_count (obj_get (fst (count_votes (votes r))) f)"
    unfolding scan_phrases_def by (rule fastestWithVote_counted) simp
  then show ?thesis
    by (simp add: truthy_count_def count_votes_get split: if_splits)
qed

lemma winner_counted:
  assumes "winner (getResults r) = Some w"
  shows "0 < votes_received r w"
proof -
  have "w \<in> set (vote_order r)"
    using assms by (auto simp: winner_getResults arr_get_def split: if_splits)
  then show ?thesis by (simp add: set_vote_order)
qed

lemma numeric_before_forfeit: "numeric (points_before_forfeit os (getResults r))"
proof -
  let ?res = "getResults r"
  let ?base = "obj_forEach (acroVotes ?res) (\<lambda>userId n pts. pts(Some userId \<mapsto> Num (int n))) Map.empty"
  let ?p1 = "?base(fastestWithVote ?res \<mapsto> plus_entry (?base (fastestWithVote ?res)) (pointsFastestWithVote os))"
  let ?p2 = "?p1(winner ?res \<mapsto> plus_entry (?p1 (winner ?res)) (numLetters os))"
  have b: "numeric ?base"
    by (auto simp: numeric_def base_points)
  have "numeric ?p1"
  proof (cases "fastestWithVote ?res")
    case None
    then show ?thesis using b by (simp add: numeric_def)
  next
    case (Some f)
    then have "?base (Some f) = Some (Num (int (votes_received r f)))"
      using fastestWithVote_getResults[of r f]
      by (simp add: base_points acroVotes_getResults count_votes_get)
    then show ?thesis using b Some by (simp add: numeric_def plus_entry_def)
  qed
  moreover have "numeric ?p1 \<Longrightarrow> numeric ?p2"
  proof (cases "winner ?res")
    case None
    assume "numeric ?p1"
    then show ?thesis using None by (simp add: numeric_def)
  next
    case (Some w)
    assume n: "numeric ?p1"
    have "?base (Some w) = Some (Num (int (votes_received r w)))"
      using winner_counted[OF Some]
      by (simp add: base_points acroVotes_getResults count_votes_get)
    then obtain a where "?p1 (Some w) = Some (Num a)"
      by (cases "fastestWithVote ?res = Some w") (auto simp: plus_entry_def)
    then show ?thesis using n Some by (simp add: numeric_def plus_entry_def)
  qed
  ultimately have "numeric ?p2" by simp
  then show ?thesis
    unfolding points_before_forfeit_def Let_def by (rule numeric_voter_bonus)
qed

lemma fastest_before_forfeit:
  assumes "fastestWithVote (getResults r) = Some f"
  shows "points_before_forfeit os (getResults r) (Some f) \<noteq> None"
  unfolding points_before_forfeit_def Let_def
  by (rule dom_voter_bonus) (simp add: assms)

lemma forfeit_get:
  "forfeit nvs m k = (if k \<in> Some ` set nvs \<and> truthy_entry (m k) then Some (Num 0) else m k)"
proof (induction nvs arbitrary: m)
  case Nil
  then show ?case by (simp add: forfeit_def)
next
  case (Cons nv nvs)
  have step: "forfeit (nv # nvs) m
      = forfeit nvs (if truthy_entry (m (Some nv)) then m(Some nv \<mapsto> Num 0) else m)"
    by (simp add: forfeit_def)
  show ?case
    unfolding step Cons.IH
    by (auto simp: truthy_entry_def)
qed

text \<open>
  C3. For the results of every round (a winner is not needed), the points are the table
  built before the loop over the non-voters, changed by that loop, which runs last: a
  non-voter with no entry in the table has none in the points, a non-voter with an entry
  ends with 0 points, and so does a non-voter who is \<open>fastestWithVote\<close>, whose entry
  holds the bonus.
\<close>

theorem forfeit_dominates:
  assumes "nv \<in> set (nonVoters (getResults r))"
  shows "(points_before_forfeit os (getResults r) (Some nv) = None
            \<longrightarrow> getPoints os (getResults r) (Some nv) = None)
    \<and> (points_before_forfeit os (getResults r) (Some nv) \<noteq> None
            \<longrightarrow> getPoints os (getResults r) (Some nv) = Some (Num 0))
    \<and> (fastestWithVote (getResults r) = Some nv
            \<longrightarrow> getPoints os (getResults r) (Some nv) = Some (Num 0))"
proof -
  let ?pre = "points_before_forfeit os (getResults r)"
  have final: "getPoints os (getResults r) (Some nv)
      = (if truthy_entry (?pre (Some nv)) then Some (Num 0) else ?pre (Some nv))"
    using assms by (simp add: getPoints_def forfeit_get)
  have num: "\<exists>a. ?pre (Some nv) = Some (Num a)" if "?pre (Some nv) \<noteq> None"
  proof -
    obtain x where x: "?pre (Some nv) = Some x"
      using \<open>?pre (Some nv) \<noteq> None\<close> by auto
    then have "x \<noteq> NaN"
      using numeric_before_forfeit[of os r] by (auto simp: numeric_def)
    then show ?thesis using x by (cases x) auto
  qed
  have zero: "?pre (Some nv) \<noteq> None \<Longrightarrow> getPoints os (getResults r) (Some nv) = Some (Num 0)"
    using num final by (auto simp: truthy_entry_def)
  show ?thesis
    using final zero fastest_before_forfeit[of r nv os]
    by (auto simp: truthy_entry_def)
qed

theorem forfeit_dominates_witness:
  "nonVoters (getResults forfeit_round) = [3, 4]
   \<and> fastestWithVote (getResults forfeit_round) = Some 3
   \<and> points_before_forfeit default_opts (getResults forfeit_round) (Some 3) = Some (Num 8)
   \<and> getPoints default_opts (getResults forfeit_round) (Some 3) = Some (Num 0)
   \<and> points_before_forfeit default_opts (getResults forfeit_round) (Some 4) = None
   \<and> getPoints default_opts (getResults forfeit_round) (Some 4) = None"
proof -
  have res: "getResults forfeit_round =
     \<lparr>winner = Some 3, tie = None, fastest = Some 1, fastestWithVote = Some 3,
      topVoters = [0, 1, 2], nonVoters = [3, 4], acroVotes = [(3, 3)]\<rparr>"
    by code_simp
  have p3: "points_before_forfeit default_opts (getResults forfeit_round) (Some 3) = Some (Num 8)"
    by code_simp
  have p4: "points_before_forfeit default_opts (getResults forfeit_round) (Some 4) = None"
    by code_simp
  show ?thesis
    using forfeit_dominates[of 3 forfeit_round default_opts]
      forfeit_dominates[of 4 forfeit_round default_opts] p3 p4
    by (simp add: res)
qed

section \<open>Facts about submissions\<close>

lemma fold_first_letters:
  "fold (\<lambda>word acro. acro @ first_letter word) ws a = a @ concat (map first_letter ws)"
  by (induction ws arbitrary: a) auto

text \<open>Where no word is empty, the acronym computed is the one the specification words.\<close>

lemma phrase_acro_spec_acro:
  assumes "[] \<notin> set (phrase_words phrase)"
  shows "phrase_acro phrase = spec_acro phrase"
proof -
  have eq: "map first_letter (phrase_words phrase) = map (take 1) (phrase_words phrase)"
    using assms by (auto simp: first_letter_def split: list.splits)
  show ?thesis
    by (simp only: phrase_acro_def spec_acro_def fold_first_letters append_Nil eq)
qed

text \<open>
  In the submission phase a phrase is accepted exactly when the acronym computed equals
  the round's; it is then stored with the time, and otherwise nothing is stored.
\<close>

lemma submitPhrase_in_acro_phase:
  assumes "phase r = PHASE_ACRO"
  shows "submitPhrase r userId phrase now =
     (if phrase_acro phrase = acro r
      then (r\<lparr>phrases := obj_set userId (strip_edges phrase) (phrases r),
              submitTimes := obj_set userId now (submitTimes r)\<rparr>,
            Some (PhraseAccepted userId
                    (obj_get (phrases r) userId = None \<or> obj_get (phrases r) userId = Some [])))
      else (r, Some (PhraseRejected userId (phrase_acro phrase))))"
  using assms by (auto simp: submitPhrase_def Let_def split: option.splits)

text \<open>A normalized text is empty or has no empty word.\<close>

lemma split_space_not_Nil: "split_space s \<noteq> []"
  by (induction s) (auto split: list.splits)

lemma tidy_split_space: "tidy s \<Longrightarrow> [] \<notin> set (split_space s)"
proof (induction s rule: tidy.induct)
  case 1
  then show ?case by simp
next
  case (2 c)
  then show ?case by simp
next
  case (3 c d cs)
  show ?case
  proof (cases "d = CHR '' ''")
    case True
    then show ?thesis using 3 by (auto split: list.splits)
  next
    case False
    then have "[] \<notin> set (split_space (d # cs))" using 3 by simp
    then show ?thesis using 3(3) split_space_not_Nil[of "d # cs"]
      by (cases "split_space (d # cs)") (auto split: list.splits)
  qed
qed

lemma is_space_space: "is_space (CHR '' '')"
  by (simp add: is_space_def)

lemma collapse_spaces_head:
  "\<not> is_space c \<Longrightarrow> collapse_spaces (c # cs) = c # collapse_spaces cs"
  by simp

lemma collapsed_spaces: "x \<in> set (collapse_spaces s) \<Longrightarrow> is_space x \<Longrightarrow> x = CHR '' ''"
proof (induction s rule: collapse_spaces.induct)
  case 1
  then show ?case by simp
next
  case (2 c cs)
  then show ?case by (auto split: if_splits)
qed

lemma collapse_no_leading_space:
  assumes "s = [] \<or> \<not> is_space (hd s)"
  shows "collapse_spaces s = [] \<or> hd (collapse_spaces s) \<noteq> CHR '' ''"
  using assms by (cases s) (auto simp: is_space_space)

lemma spaced_once_collapse: "spaced_once (collapse_spaces s)"
proof (induction s rule: collapse_spaces.induct)
  case 1
  then show ?case by simp
next
  case (2 c cs)
  show ?case
  proof (cases "is_space c")
    case True
    let ?d = "dropWhile is_space cs"
    have "?d = [] \<or> \<not> is_space (hd ?d)"
      by (metis hd_dropWhile)
    then have h: "collapse_spaces ?d = [] \<or> hd (collapse_spaces ?d) \<noteq> CHR '' ''"
      by (rule collapse_no_leading_space)
    have "spaced_once (collapse_spaces ?d)" using 2 True by simp
    then show ?thesis using True h
      by (cases "collapse_spaces ?d") auto
  next
    case False
    then have "spaced_once (collapse_spaces cs)" using 2 by simp
    then show ?thesis using False
      by (cases "collapse_spaces cs") (auto simp: is_space_space)
  qed
qed

lemma spaced_once_tl: "spaced_once s \<Longrightarrow> spaced_once (tl s)"
  by (cases s rule: spaced_once.cases) auto

lemma spaced_once_butlast: "spaced_once s \<Longrightarrow> spaced_once (butlast s)"
  by (induction s rule: spaced_once.induct) (auto split: if_splits)

lemma spaced_once_last_butlast:
  "spaced_once s \<Longrightarrow> last s = CHR '' '' \<Longrightarrow> butlast s \<noteq> [] \<Longrightarrow> last (butlast s) \<noteq> CHR '' ''"
  by (induction s rule: spaced_once.induct) (auto split: if_splits)

lemma spaced_once_Cons:
  "spaced_once (a # cs) \<longleftrightarrow> (a = CHR '' '' \<longrightarrow> cs = [] \<or> hd cs \<noteq> CHR '' '') \<and> spaced_once cs"
  by (cases cs) auto

lemma tidyI:
  "s \<noteq> [] \<Longrightarrow> hd s \<noteq> CHR '' '' \<Longrightarrow> last s \<noteq> CHR '' '' \<Longrightarrow> spaced_once s \<Longrightarrow> tidy s"
proof (induction s rule: tidy.induct)
  case 1
  then show ?case by simp
next
  case (2 c)
  then show ?case by simp
next
  case (3 c d cs)
  show ?case
  proof (cases "d = CHR '' ''")
    case True
    then have "cs \<noteq> []" using 3(5) by auto
    moreover have "hd cs \<noteq> CHR '' ''" using True 3(6) \<open>cs \<noteq> []\<close> by (cases cs) auto
    moreover have "last cs \<noteq> CHR '' ''" using 3(5) \<open>cs \<noteq> []\<close> by simp
    moreover have "spaced_once cs" using 3(6) by (simp add: spaced_once_Cons)
    ultimately have "tidy cs" using 3(1) True by simp
    then show ?thesis using True 3(4) by simp
  next
    case False
    have "last (d # cs) \<noteq> CHR '' ''" using 3(5) by simp
    moreover have "spaced_once (d # cs)" using 3(6) by simp
    ultimately have "tidy (d # cs)" using 3(2) False by simp
    then show ?thesis using False 3(4) by simp
  qed
qed

lemma strip_edges_tidy:
  assumes "spaced_once s" and "\<And>x. x \<in> set s \<Longrightarrow> is_space x \<Longrightarrow> x = CHR '' ''"
  shows "strip_edges s = [] \<or> tidy (strip_edges s)"
proof -
  define s1 where "s1 = (case s of [] \<Rightarrow> [] | c # cs \<Rightarrow> if is_space c then cs else s)"
  have sub: "set s1 \<subseteq> set s" by (auto simp: s1_def split: list.splits)
  have sp1: "spaced_once s1"
    using assms(1) by (auto simp: s1_def spaced_once_Cons split: list.splits)
  have hd1: "s1 = [] \<or> hd s1 \<noteq> CHR '' ''"
  proof (cases s)
    case Nil
    then show ?thesis by (simp add: s1_def)
  next
    case (Cons c cs)
    show ?thesis
    proof (cases "is_space c")
      case True
      then have "c = CHR '' ''" using assms(2) Cons by simp
      then show ?thesis using assms(1) Cons True by (auto simp: s1_def spaced_once_Cons)
    next
      case False
      then show ?thesis using Cons by (auto simp: s1_def is_space_space)
    qed
  qed
  have res: "strip_edges s = (if s1 \<noteq> [] \<and> is_space (last s1) then butlast s1 else s1)"
    by (simp add: strip_edges_def s1_def Let_def)
  show ?thesis
  proof (cases "s1 \<noteq> [] \<and> is_space (last s1)")
    case True
    then have l: "last s1 = CHR '' ''" using assms(2) sub by (meson last_in_set subsetD)
    show ?thesis
    proof (cases "butlast s1 = []")
      case True
      then show ?thesis using res \<open>s1 \<noteq> [] \<and> is_space (last s1)\<close> by simp
    next
      case False
      have "hd (butlast s1) = hd s1" using False by (cases s1) auto
      then have "hd (butlast s1) \<noteq> CHR '' ''" using hd1 True by auto
      moreover have "last (butlast s1) \<noteq> CHR '' ''"
        using spaced_once_last_butlast[OF sp1 l False] .
      moreover have "spaced_once (butlast s1)" using sp1 by (rule spaced_once_butlast)
      ultimately have "tidy (butlast s1)" using False by (intro tidyI)
      then show ?thesis using res True by simp
    qed
  next
    case False
    show ?thesis
    proof (cases "s1 = []")
      case True
      then show ?thesis using res by simp
    next
      case nonempty: False
      then have "last s1 \<noteq> CHR '' ''" using False by (auto simp: is_space_space)
      then have "tidy s1" using nonempty hd1 sp1 by (intro tidyI) auto
      then show ?thesis using res False by auto
    qed
  qed
qed

lemma phrase_words_no_empty_word:
  "phrase_words phrase = [[]] \<or> [] \<notin> set (phrase_words phrase)"
proof -
  let ?c = "collapse_spaces (replace_non_acro (toUpperCase phrase))"
  have "strip_edges ?c = [] \<or> tidy (strip_edges ?c)"
    by (rule strip_edges_tidy) (auto simp: spaced_once_collapse collapsed_spaces)
  then show ?thesis
    by (auto simp: phrase_words_def tidy_split_space)
qed

text \<open>
  With a word in the normalized text, the code decides and reports by the acronym as the
  specification words it; with none, it computes \<open>undefined\<close>.
\<close>

lemma submitPhrase_with_words:
  assumes "phase r = PHASE_ACRO" and "phrase_words phrase \<noteq> [[]]"
  shows "submitPhrase r userId phrase now =
     (if spec_acro phrase = acro r
      then (r\<lparr>phrases := obj_set userId (strip_edges phrase) (phrases r),
              submitTimes := obj_set userId now (submitTimes r)\<rparr>,
            Some (PhraseAccepted userId
                    (obj_get (phrases r) userId = None \<or> obj_get (phrases r) userId = Some [])))
      else (r, Some (PhraseRejected userId (spec_acro phrase))))"
proof -
  have "[] \<notin> set (phrase_words phrase)"
    using phrase_words_no_empty_word[of phrase] assms(2) by simp
  then have "phrase_acro phrase = spec_acro phrase"
    by (rule phrase_acro_spec_acro)
  then show ?thesis
    using submitPhrase_in_acro_phase[OF assms(1), of userId phrase now] by simp
qed

lemma phrase_acro_without_words:
  assumes "phrase_words phrase = [[]]"
  shows "phrase_acro phrase = ''undefined'' \<and> spec_acro phrase = []"
  using assms by (simp add: phrase_acro_def spec_acro_def first_letter_def)

text \<open>
  C6. The claim: the acronym of a text is the concatenation of the first characters of
  the words of the normalized text, and a text is rejected with that acronym when it
  differs from the round's. The text \<open>?!\<close> is normalized to the empty string, whose one
  word is empty: the acronym as specified is empty, the code computes \<open>undefined\<close> and
  rejects the text with it.
\<close>

theorem submitPhrase_no_word:
  "phrase_words ''?!'' = [[]]
   \<and> spec_acro ''?!'' = []
   \<and> phrase_acro ''?!'' = ''undefined''
   \<and> submitPhrase \<lparr>acro = ''ABC'', phase = PHASE_ACRO, phrases = [], submitTimes = [],
          userOrder = [], votes = []\<rparr> 0 ''?!'' now
       = (\<lparr>acro = ''ABC'', phase = PHASE_ACRO, phrases = [], submitTimes = [],
            userOrder = [], votes = []\<rparr>, Some (PhraseRejected 0 ''undefined''))"
proof -
  have w: "phrase_words ''?!'' = [[]]" by code_simp
  have a: "phrase_acro ''?!'' = ''undefined''" by code_simp
  have s: "spec_acro ''?!'' = []" by (simp add: spec_acro_def w)
  show ?thesis using w a s by (simp add: submitPhrase_def)
qed

section \<open>Facts about the face-off\<close>

text \<open>
  With two players \<open>_getFastestPlayer\<close> compares their ids, which differ, and never
  returns \<open>null\<close>: with equal counts it returns the player whose key comes first.
\<close>

lemma getFastestPlayer_two:
  assumes "obj_keys (fo_fastest fo) = [a, b]"
    and "obj_get (fo_fastest fo) a = Some fa" and "obj_get (fo_fastest fo) b = Some fb"
  shows "getFastestPlayer fo = Some (if fa < fb then b else a)"
proof -
  have "a \<noteq> b" using distinct_obj_keys[of "fo_fastest fo"] assms(1) by simp
  then show ?thesis
    using assms
    by (simp add: getFastestPlayer_def js_sort_def positive_def desc_cmp_def arr_get_def Let_def)
qed

text \<open>
  The higher score wins; with equal scores the higher count of fastest answers wins;
  with both equal the player whose key comes first is declared the winner.
\<close>

lemma announceWinner_two:
  assumes "obj_keys (fo_scores fo) = [a, b]"
    and "obj_get (fo_scores fo) a = Some sa" and "obj_get (fo_scores fo) b = Some sb"
    and "obj_keys (fo_fastest fo) = [a, b]"
    and "obj_get (fo_fastest fo) a = Some fa" and "obj_get (fo_fastest fo) b = Some fb"
  shows "announceWinner fo =
     Some (if sa < sb then b else if sb < sa then a else if fa < fb then b else a)"
  using assms(1-3) getFastestPlayer_two[OF assms(4-6)]
  by (auto simp: announceWinner_def js_sort_def positive_def desc_cmp_def arr_get_def
      obj_at_def Let_def)

text \<open>
  C1. The claim: with equal scores and equal counts of fastest answers the winner is
  \<open>null\<close>. For the players 0 and 1 with scores 5 and 5 (or 1 and 1) and counts 1 and 1,
  \<open>_getFastestPlayer\<close> returns player 0 and the face-off declares player 0 the winner.
\<close>

theorem announceWinner_equal_fastest:
  "getFastestPlayer \<lparr>fo_scores = [(0, 5), (1, 5)], fo_fastest = [(0, 1), (1, 1)]\<rparr> = Some 0
   \<and> announceWinner \<lparr>fo_scores = [(0, 5), (1, 5)], fo_fastest = [(0, 1), (1, 1)]\<rparr> = Some 0
   \<and> announceWinner \<lparr>fo_scores = [(0, 1), (1, 1)], fo_fastest = [(0, 1), (1, 1)]\<rparr> = Some 0"
  by code_simp

text \<open>With one submission the callback gets no error, the bonus of that player and the player.\<close>

lemma startVote_one_submitter:
  "startVote \<lparr>fr_numLetters = n, fr_userOrder = [u]\<rparr>
     = Callback [Null, Scores [(u, n)], UserId u]"
  by (simp add: startVote_def showSingleResult_def obj_set_def)

text \<open>
  C7. The claim: with no submission the round awards no points and reports \<open>null\<close> as
  the fastest player. The callback is called with two arguments, the empty object and
  \<open>null\<close>: its parameter \<open>err\<close> is the empty object, \<open>points\<close> is \<open>null\<close>, and
  \<open>fastest\<close> is \<open>undefined\<close>, not \<open>null\<close>.
\<close>

theorem startVote_no_submitter:
  "startVote \<lparr>fr_numLetters = n, fr_userOrder = []\<rparr> = Callback [Scores [], Null]
   \<and> cb_err [Scores [], Null] = Scores []
   \<and> cb_points [Scores [], Null] = Null
   \<and> cb_fastest [Scores [], Null] = Undefined
   \<and> cb_fastest [Scores [], Null] \<noteq> Null"
  by (simp add: startVote_def cb_err_def cb_points_def cb_fastest_def argument_def)

section \<open>Facts about the game\<close>

text \<open>
  A user with a name that differs from the new one is renamed, and nothing else changes;
  this is stated for a game with no entry \<open>hasOwnProperty\<close> and a new name other than
  \<open>__proto__\<close>.
\<close>

lemma changeUser_renames:
  assumes "userIds g oldUser = Some i" and "newUser \<noteq> oldUser"
    and "userIds g ''hasOwnProperty'' = None" and "newUser \<noteq> ''__proto__''"
  shows "changeUser g oldUser newUser
     = g\<lparr>userIds := (userIds g)(newUser \<mapsto> i, oldUser := None),
         userNames := arr_set i newUser (userNames g)\<rparr>"
  using assms by (simp add: changeUser_def Let_def)

lemma changeUser_unregistered:
  assumes "userIds g oldUser = None"
  shows "changeUser g oldUser newUser = g"
  using assms by (simp add: changeUser_def)

lemma changeUser_same_name:
  assumes "userIds g user = Some i" and "userIds g ''hasOwnProperty'' = None"
  shows "changeUser g user user = g\<lparr>userIds := (userIds g)(user := None)\<rparr>"
  using assms by (simp add: changeUser_def Let_def)

text \<open>
  C10. The claim: for a registered user, \<open>changeUser\<close> binds the new name to the user's
  id. When the new name is the old name, the binding made is deleted by the statement
  that removes the old name: \<open>bob\<close>, registered with id 0, has no id after
  \<open>changeUser('bob', 'bob')\<close>, and gets the new id 1 with the next input.
\<close>

theorem changeUser_to_same_name:
  "userIds (userInput new_game ''bob'' ''hello'') ''bob'' = Some 0
   \<and> userIds (changeUser (userInput new_game ''bob'' ''hello'') ''bob'' ''bob'') ''bob'' = None
   \<and> userIds (userInput (changeUser (userInput new_game ''bob'' ''hello'') ''bob'' ''bob'')
               ''bob'' ''again'') ''bob'' = Some 1"
  by (simp add: new_game_def userInput_def changeUser_def Let_def)








end
